theory Spec2Isabelle
  imports Main
begin

section \<open>JavaScript values of the node editor\<close>

text \<open>
  The Save handler of \<^verbatim>\<open>NodeModal\<close> works on the value returned by \<^verbatim>\<open>JSON.parse\<close>.
  Such a value is a tree: \<^verbatim>\<open>null\<close>, a boolean, a number, a string, an array or an object.
  An object is kept as the list of its own properties in property order. Numbers are
  integers here; floating point is outside the model. \<^verbatim>\<open>undefined\<close> never occurs
  inside a parsed tree, only as the result of a property read, so a read returns a
  \<open>jsval option\<close> with \<open>None\<close> for \<^verbatim>\<open>undefined\<close>.
\<close>

datatype jsval =
    JNull
  | JBool bool
  | JNum int
  | JStr string
  | JArr "jsval list"
  | JObj "(string \<times> jsval) list"

text \<open>A path segment is \<^verbatim>\<open>string | number\<close>; the numbers are array indices.\<close>

datatype seg = Key string | Idx nat

text \<open>
  A row of \<^verbatim>\<open>NodeData["text"]\<close>: an optional key, the displayed value and the type tag.
  \<open>selectedNode\<close> carries the rows and the path of the node.
\<close>

record row =
  row_key :: "string option"
  row_value :: jsval
  row_type :: string

record NodeData =
  nd_text :: "row list"
  nd_path :: "seg list"

text \<open>
  What the handler can throw: \<^verbatim>\<open>new Error(message)\<close> of the source itself, the
  \<^verbatim>\<open>SyntaxError\<close> of \<^verbatim>\<open>JSON.parse\<close> and the \<^verbatim>\<open>TypeError\<close> of a property access
  that the engine refuses.
\<close>

datatype error = Error string | SyntaxError | TypeError

definition InvalidJsonInput :: error where
  "InvalidJsonInput = Error ''Invalid JSON. Please enter valid JSON for objects/arrays.''"

definition UnresolvedPath :: error where
  "UnresolvedPath = Error ''Unable to resolve target path in JSON.''"

text \<open>
  The parts of the host that the handler calls and that are not part of the component:
  \<^verbatim>\<open>JSON.parse\<close> (\<open>None\<close> when it throws), \<^verbatim>\<open>JSON.stringify(_, null, 2)\<close>, and whether
  \<^verbatim>\<open>window.dispatchEvent(new CustomEvent(...))\<close> goes through or throws.
\<close>

record js_env =
  JSON_parse :: "string \<Rightarrow> jsval option"
  JSON_stringify :: "jsval \<Rightarrow> string"
  CustomEvent_ok :: bool

subsection \<open>Decimal names of indices\<close>

definition digit_char :: "nat \<Rightarrow> char" where
  "digit_char d = ''0123456789'' ! d"

definition digit_of :: "char \<Rightarrow> nat option" where
  "digit_of c = map_of
     [(CHR ''0'', 0), (CHR ''1'', 1), (CHR ''2'', 2), (CHR ''3'', 3), (CHR ''4'', 4),
      (CHR ''5'', 5), (CHR ''6'', 6), (CHR ''7'', 7), (CHR ''8'', 8), (CHR ''9'', 9)] c"

text \<open>\<^verbatim>\<open>String(n)\<close> for a non-negative integer.\<close>

fun show_nat :: "nat \<Rightarrow> string" where
  "show_nat n =
     (if n < 10 then [digit_char n] else show_nat (n div 10) @ [digit_char (n mod 10)])"

declare show_nat.simps [simp del]

text \<open>\<^verbatim>\<open>String(i)\<close> for an integer.\<close>

definition show_int :: "int \<Rightarrow> string" where
  "show_int i = (if i < 0 then CHR ''-'' # show_nat (nat (- i)) else show_nat (nat i))"

text \<open>The value of a digit string, most significant digit first; \<open>None\<close> on a non-digit.\<close>

fun read_digits :: "nat \<Rightarrow> string \<Rightarrow> nat option" where
  "read_digits acc [] = Some acc"
| "read_digits acc (c # cs) =
     (case digit_of c of None \<Rightarrow> None | Some d \<Rightarrow> read_digits (10 * acc + d) cs)"

text \<open>
  An array index is an integer from 0 to \<^verbatim>\<open>2^32 - 2\<close>. A string names an array index
  when it is the canonical decimal form of one: digits only, no leading zero.
\<close>

definition is_array_index :: "nat \<Rightarrow> bool" where
  "is_array_index n = (n < 4294967295)"

definition read_index :: "string \<Rightarrow> nat option" where
  "read_index s =
     (if s = [] then None
      else case read_digits 0 s of
             None \<Rightarrow> None
           | Some n \<Rightarrow> if show_nat n = s \<and> is_array_index n then Some n else None)"

fun seg_name :: "seg \<Rightarrow> string" where
  "seg_name (Key k) = k"
| "seg_name (Idx n) = show_nat n"

fun seg_index :: "seg \<Rightarrow> nat option" where
  "seg_index (Idx n) = (if is_array_index n then Some n else None)"
| "seg_index (Key k) = read_index k"

subsection \<open>Truthiness, typeof, Array.isArray\<close>

fun truthy :: "jsval option \<Rightarrow> bool" where
  "truthy None = False"
| "truthy (Some JNull) = False"
| "truthy (Some (JBool b)) = b"
| "truthy (Some (JNum n)) = (n \<noteq> 0)"
| "truthy (Some (JStr s)) = (s \<noteq> [])"
| "truthy (Some (JArr xs)) = True"
| "truthy (Some (JObj kvs)) = True"

fun typeof :: "jsval option \<Rightarrow> string" where
  "typeof None = ''undefined''"
| "typeof (Some JNull) = ''object''"
| "typeof (Some (JBool b)) = ''boolean''"
| "typeof (Some (JNum n)) = ''number''"
| "typeof (Some (JStr s)) = ''string''"
| "typeof (Some (JArr xs)) = ''object''"
| "typeof (Some (JObj kvs)) = ''object''"

fun isArray :: "jsval option \<Rightarrow> bool" where
  "isArray (Some (JArr xs)) = True"
| "isArray v = False"

text \<open>\<^verbatim>\<open>r.key\<close> used as a condition: a missing key and the empty key are both falsy.\<close>

fun key_truthy :: "string option \<Rightarrow> bool" where
  "key_truthy None = False"
| "key_truthy (Some k) = (k \<noteq> [])"

subsection \<open>Property reads and writes\<close>

text \<open>
  The reads and writes below are those of the properties of the parsed tree itself. The
  engine also finds a name on the built-in prototypes of the value (\<^verbatim>\<open>constructor\<close>,
  \<^verbatim>\<open>toString\<close>, the accessor \<^verbatim>\<open>__proto__\<close>, the methods of arrays, strings, numbers and
  booleans) and keeps a \<^verbatim>\<open>length\<close> for arrays and strings. \<open>builtin_names\<close> lists the
  names that the prototypes of \<^verbatim>\<open>Object\<close>, \<^verbatim>\<open>Array\<close>, \<^verbatim>\<open>String\<close>, \<^verbatim>\<open>Number\<close> and
  \<^verbatim>\<open>Boolean\<close> define in ECMAScript (with Annex B and the former proposals), and
  \<^verbatim>\<open>length\<close>; a host that has added names to these prototypes has those as well. On a
  segment with any other name, an \<open>ordinary\<close> one, a read or write
  of the engine concerns own properties only and is the one modelled here; on a segment
  with a built-in name the engine does something else, which is outside the model.
\<close>

definition builtin_names :: "string list" where
  "builtin_names =
     [''length'', ''constructor'', ''__proto__'', ''__defineGetter__'', ''__defineSetter__'',
      ''__lookupGetter__'', ''__lookupSetter__'', ''hasOwnProperty'', ''isPrototypeOf'',
      ''propertyIsEnumerable'', ''toLocaleString'', ''toString'', ''valueOf'',
      ''at'', ''concat'', ''copyWithin'', ''entries'', ''every'', ''fill'', ''filter'',
      ''find'', ''findIndex'', ''findLast'', ''findLastIndex'', ''flat'', ''flatMap'',
      ''forEach'', ''group'', ''groupBy'', ''groupByToMap'', ''groupToMap'', ''includes'',
      ''indexOf'', ''join'', ''keys'', ''lastIndexOf'', ''map'', ''pop'', ''push'',
      ''reduce'', ''reduceRight'', ''reverse'', ''shift'', ''slice'', ''some'', ''sort'',
      ''splice'', ''toReversed'', ''toSorted'', ''toSpliced'', ''unshift'', ''values'',
      ''with'',
      ''anchor'', ''big'', ''blink'', ''bold'', ''charAt'', ''charCodeAt'', ''codePointAt'',
      ''endsWith'', ''fixed'', ''fontcolor'', ''fontsize'', ''isWellFormed'', ''italics'',
      ''link'', ''localeCompare'', ''match'', ''matchAll'', ''normalize'', ''padEnd'',
      ''padStart'', ''repeat'', ''replace'', ''replaceAll'', ''search'', ''small'',
      ''split'', ''startsWith'', ''strike'', ''sub'', ''substr'', ''substring'', ''sup'',
      ''toLocaleLowerCase'', ''toLocaleUpperCase'', ''toLowerCase'', ''toUpperCase'',
      ''toWellFormed'', ''trim'', ''trimEnd'', ''trimLeft'', ''trimRight'', ''trimStart'',
      ''toExponential'', ''toFixed'', ''toPrecision'']"

definition ordinary :: "seg \<Rightarrow> bool" where
  "ordinary s = (seg_name s \<notin> set builtin_names)"

text \<open>
  \<^verbatim>\<open>cursor[seg]\<close>. Reading a property of \<^verbatim>\<open>undefined\<close> or \<^verbatim>\<open>null\<close> throws a
  \<^verbatim>\<open>TypeError\<close>. An object is looked up by the name of the segment, an array and a
  string by its index; a number and a boolean have no property of their own.
\<close>

fun get_prop :: "jsval option \<Rightarrow> seg \<Rightarrow> error + jsval option" where
  "get_prop None s = Inl TypeError"
| "get_prop (Some JNull) s = Inl TypeError"
| "get_prop (Some (JObj kvs)) s = Inr (map_of kvs (seg_name s))"
| "get_prop (Some (JArr xs)) s =
     Inr (case seg_index s of
            None \<Rightarrow> None
          | Some i \<Rightarrow> if i < length xs then Some (xs ! i) else None)"
| "get_prop (Some (JStr cs)) s =
     Inr (case seg_index s of
            None \<Rightarrow> None
          | Some i \<Rightarrow> if i < length cs then Some (JStr [cs ! i]) else None)"
| "get_prop (Some (JBool b)) s = Inr None"
| "get_prop (Some (JNum n)) s = Inr None"

text \<open>
  \<^verbatim>\<open>obj[k] = v\<close> on an object: an existing property keeps its place, a new one goes last.
  (An engine lists integer-like names before the others; that reordering is not modelled.)
\<close>

fun obj_set :: "string \<Rightarrow> jsval \<Rightarrow> (string \<times> jsval) list \<Rightarrow> (string \<times> jsval) list" where
  "obj_set k v [] = [(k, v)]"
| "obj_set k v ((k', v') # kvs) =
     (if k' = k then (k, v) # kvs else (k', v') # obj_set k v kvs)"

text \<open>\<^verbatim>\<open>delete obj[k]\<close>.\<close>

definition obj_delete :: "string \<Rightarrow> (string \<times> jsval) list \<Rightarrow> (string \<times> jsval) list" where
  "obj_delete k kvs = filter (\<lambda>kv. fst kv \<noteq> k) kvs"

text \<open>
  The object spread \<^verbatim>\<open>{ ...a, ...b }\<close>: a fresh object that receives the properties of
  \<open>a\<close> and then those of \<open>b\<close>, in order.
\<close>

definition spread :: "(string \<times> jsval) list \<Rightarrow> (string \<times> jsval) list \<Rightarrow> (string \<times> jsval) list" where
  "spread a b = fold (\<lambda>kv acc. obj_set (fst kv) (snd kv) acc) (a @ b) []"

text \<open>
  \<^verbatim>\<open>cursor[seg] = v\<close> for a defined cursor, in a module (strict mode): on \<^verbatim>\<open>null\<close> and
  on a primitive it throws a \<^verbatim>\<open>TypeError\<close>. On an array an index past the end
  lengthens the array and leaves holes, which \<^verbatim>\<open>JSON.stringify\<close> writes as \<^verbatim>\<open>null\<close>;
  nothing reads them before the serialisation, so they are \<open>JNull\<close> here. A name that
  is no array index becomes a property of the array that \<^verbatim>\<open>JSON.stringify\<close> leaves out.
\<close>

fun set_prop :: "jsval \<Rightarrow> seg \<Rightarrow> jsval \<Rightarrow> error + jsval" where
  "set_prop (JObj kvs) s v = Inr (JObj (obj_set (seg_name s) v kvs))"
| "set_prop (JArr xs) s v =
     Inr (case seg_index s of
            None \<Rightarrow> JArr xs
          | Some i \<Rightarrow>
              if i < length xs then JArr (xs[i := v])
              else JArr (xs @ replicate (i - length xs) JNull @ [v]))"
| "set_prop JNull s v = Inl TypeError"
| "set_prop (JBool b) s v = Inl TypeError"
| "set_prop (JNum n) s v = Inl TypeError"
| "set_prop (JStr cs) s v = Inl TypeError"

section \<open>The Save handler\<close>

text \<open>The loop of \<^verbatim>\<open>traverseToParent\<close>: \<^verbatim>\<open>for (const seg of parentPath) cursor = cursor[seg]\<close>.\<close>

fun walk :: "jsval option \<Rightarrow> seg list \<Rightarrow> error + jsval option" where
  "walk cursor [] = Inr cursor"
| "walk cursor (s # ss) =
     (case get_prop cursor s of Inl e \<Rightarrow> Inl e | Inr c \<Rightarrow> walk c ss)"

text \<open>
  \<^verbatim>\<open>traverseToParent(root, fullPath)\<close> returns \<^verbatim>\<open>lastKey\<close> (\<open>None\<close> for \<^verbatim>\<open>null\<close>) and
  \<^verbatim>\<open>cursor\<close>.
\<close>

definition traverseToParent :: "jsval \<Rightarrow> seg list \<Rightarrow> error + (seg option \<times> jsval option)" where
  "traverseToParent root fullPath =
     (if fullPath = [] then Inr (None, Some root)
      else case walk (Some root) (butlast fullPath) of
             Inl e \<Rightarrow> Inl e
           | Inr cursor \<Rightarrow> Inr (Some (last fullPath), cursor))"

text \<open>
  The cursor is a reference into \<^verbatim>\<open>parsedRoot\<close>, and the handler writes through it.
  Here the written cursor is put back at the place the walk took it from. A write
  succeeds only on an object or an array, and the walk reaches one only through
  existing properties of objects and existing elements of arrays.
\<close>

fun put_at :: "jsval \<Rightarrow> seg list \<Rightarrow> jsval \<Rightarrow> jsval" where
  "put_at root [] c = c"
| "put_at (JObj kvs) (s # ss) c =
     (case map_of kvs (seg_name s) of
        None \<Rightarrow> JObj kvs
      | Some child \<Rightarrow> JObj (obj_set (seg_name s) (put_at child ss c) kvs))"
| "put_at (JArr xs) (s # ss) c =
     (case seg_index s of
        None \<Rightarrow> JArr xs
      | Some i \<Rightarrow> if i < length xs then JArr (xs[i := put_at (xs ! i) ss c]) else JArr xs)"
| "put_at root (s # ss) c = root"

text \<open>\<^verbatim>\<open>nodeRows.length > 0 && nodeRows.some(r => r.key)\<close>.\<close>

definition isEditingObjectFields :: "row list \<Rightarrow> bool" where
  "isEditingObjectFields nodeRows =
     (length nodeRows > 0 \<and> list_ex (\<lambda>r. key_truthy (row_key r)) nodeRows)"

text \<open>\<^verbatim>\<open>x && typeof x === "object" && !Array.isArray(x)\<close>.\<close>

definition plain_object :: "jsval option \<Rightarrow> bool" where
  "plain_object x = (truthy x \<and> typeof x = ''object'' \<and> \<not> isArray x)"

text \<open>The properties of a value used as an object (\<^verbatim>\<open>Object.keys\<close>, spread).\<close>

fun props :: "jsval \<Rightarrow> (string \<times> jsval) list" where
  "props (JObj kvs) = kvs"
| "props v = []"

text \<open>
  The inner \<^verbatim>\<open>try\<close>: the edited text is parsed; when that throws, a node of one row
  without key takes the text itself as a string, any other node throws.
\<close>

definition new_value :: "js_env \<Rightarrow> row list \<Rightarrow> string \<Rightarrow> error + jsval" where
  "new_value env nodeRows editedText =
     (case JSON_parse env editedText of
        Some v \<Rightarrow> Inr v
      | None \<Rightarrow>
          if length nodeRows = 1 \<and> \<not> key_truthy (row_key (nodeRows ! 0))
          then Inr (JStr editedText)
          else Inl InvalidJsonInput)"

text \<open>
  The three-way choice of the non-root branch, for a defined cursor: the cursor after
  the write. The rename branch reads \<^verbatim>\<open>cursor[lastKey]\<close> again; when that is \<^verbatim>\<open>null\<close>
  the write \<^verbatim>\<open>parentObj[newKey] = newVal\<close> throws.
\<close>

definition write_target :: "jsval \<Rightarrow> seg \<Rightarrow> row list \<Rightarrow> jsval \<Rightarrow> error + jsval" where
  "write_target cursor lastKey nodeRows newValue =
     (case get_prop (Some cursor) lastKey of
        Inl e \<Rightarrow> Inl e
      | Inr target \<Rightarrow>
          if isEditingObjectFields nodeRows \<and> plain_object target \<and> plain_object (Some newValue)
          then set_prop cursor lastKey (JObj (spread (props (the target)) (props newValue)))
          else if length nodeRows = 1 \<and> key_truthy (row_key (nodeRows ! 0)) \<and>
                  plain_object (Some newValue) \<and> length (props newValue) = 1
          then (let oldKey = the (row_key (nodeRows ! 0));
                    newKey = fst (props newValue ! 0);
                    newVal = snd (props newValue ! 0)
                in if typeof target = ''object'' \<and> \<not> isArray target
                   then (case target of
                           Some (JObj parentObj) \<Rightarrow>
                             set_prop cursor lastKey
                               (JObj (if newKey \<noteq> oldKey
                                      then obj_delete oldKey (obj_set newKey newVal parentObj)
                                      else obj_set newKey newVal parentObj))
                         | _ \<Rightarrow> Inl TypeError)
                   else set_prop cursor lastKey newValue)
          else set_prop cursor lastKey newValue)"

text \<open>The effects of the handler that other parts of the application can see.\<close>

datatype effect =
    SetJson string
  | DispatchJsonUpdate string
  | SetIsEditing bool
  | SetEditedText string
  | SetError "error option"
  | OnClose

text \<open>
  \<^verbatim>\<open>emitJsonUpdate\<close>: the event \<^verbatim>\<open>json:update\<close> with the string as detail; where
  \<^verbatim>\<open>CustomEvent\<close> is blocked the exception is swallowed and nothing is dispatched.
\<close>

definition emitJsonUpdate :: "js_env \<Rightarrow> string \<Rightarrow> effect list" where
  "emitJsonUpdate env jsonString =
     (if CustomEvent_ok env then [DispatchJsonUpdate jsonString] else [])"

text \<open>
  The body of the outer \<^verbatim>\<open>try\<close> up to the last write to the store: the effects in
  the order of the calls, or the exception. \<open>currentJson\<close> is the result of
  \<^verbatim>\<open>getJson()\<close>; \<open>None\<close> for \<open>nodeData\<close> is no selected node.
\<close>

definition save_edit :: "js_env \<Rightarrow> string \<Rightarrow> NodeData option \<Rightarrow> string \<Rightarrow> error + effect list" where
  "save_edit env currentJson nodeData editedText =
     (case (if currentJson \<noteq> [] then
              (case JSON_parse env currentJson of None \<Rightarrow> Inl SyntaxError | Some r \<Rightarrow> Inr r)
            else Inr (JObj [])) of
        Inl e \<Rightarrow> Inl e
      | Inr parsedRoot \<Rightarrow>
          let nodeRows = (case nodeData of None \<Rightarrow> [] | Some nd \<Rightarrow> nd_text nd) in
          (case new_value env nodeRows editedText of
             Inl e \<Rightarrow> Inl e
           | Inr newValue \<Rightarrow>
               let path = (case nodeData of None \<Rightarrow> [] | Some nd \<Rightarrow> nd_path nd) in
               if path = [] then
                 (if isEditingObjectFields nodeRows \<and> plain_object (Some newValue)
                  then (let existingRootIsObject = plain_object (Some parsedRoot);
                            merged = (if existingRootIsObject
                                      then JObj (spread (props parsedRoot) (props newValue))
                                      else newValue);
                            finalJson = JSON_stringify env merged
                        in Inr ([SetJson finalJson] @ emitJsonUpdate env finalJson))
                  else (let finalJson = JSON_stringify env newValue
                        in Inr ([SetJson finalJson] @ emitJsonUpdate env finalJson)))
               else
                 (case traverseToParent parsedRoot path of
                    Inl e \<Rightarrow> Inl e
                  | Inr (lastKey, cursor) \<Rightarrow>
                      (case (cursor, lastKey) of
                         (Some c, Some k) \<Rightarrow>
                           (case write_target c k nodeRows newValue of
                              Inl e \<Rightarrow> Inl e
                            | Inr c' \<Rightarrow>
                                let finalJson =
                                      JSON_stringify env (put_at parsedRoot (butlast path) c')
                                in Inr ([SetJson finalJson] @ emitJsonUpdate env finalJson))
                       | _ \<Rightarrow> Inl UnresolvedPath))))"

text \<open>
  The whole \<^verbatim>\<open>onClick\<close>: after the write the editor is closed; an exception from
  anywhere in the body ends in \<^verbatim>\<open>setError\<close>.
\<close>

definition onClick :: "js_env \<Rightarrow> string \<Rightarrow> NodeData option \<Rightarrow> string \<Rightarrow> effect list" where
  "onClick env currentJson nodeData editedText =
     (case save_edit env currentJson nodeData editedText of
        Inr effects \<Rightarrow> effects @ [SetIsEditing False, SetEditedText [], SetError None, OnClose]
      | Inl e \<Rightarrow> [SetError (Some e)])"

subsection \<open>The other handlers of the modal\<close>

text \<open>
  A template literal \<^verbatim>\<open>`${v}`\<close> converts the value to a string: a string is taken as
  it is, an array joins its elements with commas (\<^verbatim>\<open>null\<close> as the empty string), an
  object gives \<^verbatim>\<open>[object Object]\<close>.
\<close>

fun join_commas :: "string list \<Rightarrow> string" where
  "join_commas [] = []"
| "join_commas [l] = l"
| "join_commas (l # ls) = l @ '','' @ join_commas ls"

fun to_string :: "jsval \<Rightarrow> string" where
  "to_string JNull = ''null''"
| "to_string (JBool b) = (if b then ''true'' else ''false'')"
| "to_string (JNum i) = show_int i"
| "to_string (JStr s) = s"
| "to_string (JArr xs) = join_commas (map (\<lambda>x. if x = JNull then [] else to_string x) xs)"
| "to_string (JObj kvs) = ''[object Object]''"

text \<open>\<^verbatim>\<open>normalizeNodeData\<close>: the text shown for a node and offered for editing.\<close>

definition normalizeNodeData :: "js_env \<Rightarrow> row list \<Rightarrow> string" where
  "normalizeNodeData env nodeRows =
     (if nodeRows = [] then ''{}''
      else if length nodeRows = 1 \<and> \<not> key_truthy (row_key (nodeRows ! 0))
      then to_string (row_value (nodeRows ! 0))
      else JSON_stringify env
             (JObj (fold (\<lambda>row obj.
                            if row_type row \<noteq> ''array'' \<and> row_type row \<noteq> ''object''
                            then (if key_truthy (row_key row)
                                  then obj_set (the (row_key row)) (row_value row) obj
                                  else obj)
                            else obj) nodeRows [])))"

text \<open>
  What the user and React can do to the modal: the Edit, Cancel and Save buttons, typing
  in the textarea, and the effect that resets the modal when it is opened, closed or
  shown for another node.
\<close>

datatype action = ClickEdit | ChangeText string | ClickCancel | ClickSave | Reset

subsection \<open>The state that the effects act on\<close>

text \<open>
  The store of \<^verbatim>\<open>useJson\<close>, the \<^verbatim>\<open>json:update\<close> events dispatched on the window, and
  the state of the modal.
\<close>

record app =
  store_json :: string
  events :: "string list"
  ui_isEditing :: bool
  ui_editedText :: string
  ui_error :: "error option"
  ui_closed :: bool

fun apply_effect :: "effect \<Rightarrow> app \<Rightarrow> app" where
  "apply_effect (SetJson s) st = st\<lparr>store_json := s\<rparr>"
| "apply_effect (DispatchJsonUpdate s) st = st\<lparr>events := events st @ [s]\<rparr>"
| "apply_effect (SetIsEditing b) st = st\<lparr>ui_isEditing := b\<rparr>"
| "apply_effect (SetEditedText s) st = st\<lparr>ui_editedText := s\<rparr>"
| "apply_effect (SetError e) st = st\<lparr>ui_error := e\<rparr>"
| "apply_effect OnClose st = st\<lparr>ui_closed := True\<rparr>"

definition run :: "effect list \<Rightarrow> app \<Rightarrow> app" where
  "run effects st = fold apply_effect effects st"

text \<open>A click on Save: \<^verbatim>\<open>getJson()\<close> reads the store, the text is the one of the textarea.\<close>

definition click_save :: "js_env \<Rightarrow> NodeData option \<Rightarrow> app \<Rightarrow> app" where
  "click_save env nodeData st =
     run (onClick env (store_json st) nodeData (ui_editedText st)) st"

text \<open>The effects of each action in a state of the application.\<close>

fun react :: "js_env \<Rightarrow> NodeData option \<Rightarrow> app \<Rightarrow> action \<Rightarrow> effect list" where
  "react env nodeData st ClickEdit =
     [SetEditedText (normalizeNodeData env (case nodeData of None \<Rightarrow> [] | Some nd \<Rightarrow> nd_text nd)),
      SetIsEditing True]"
| "react env nodeData st (ChangeText s) = [SetEditedText s]"
| "react env nodeData st ClickCancel = [SetIsEditing False, SetEditedText [], SetError None]"
| "react env nodeData st ClickSave = onClick env (store_json st) nodeData (ui_editedText st)"
| "react env nodeData st Reset = [SetIsEditing False, SetEditedText [], SetError None]"

subsection \<open>The value behind the written text\<close>

text \<open>
  The value that the handler passes to \<^verbatim>\<open>JSON.stringify\<close>, as a function of the parsed
  document, the path, the rows and the new value; \<open>save_edit_edited\<close> below shows that
  the handler writes the serialisation of exactly this value.
\<close>

definition edited :: "jsval \<Rightarrow> seg list \<Rightarrow> row list \<Rightarrow> jsval \<Rightarrow> error + jsval" where
  "edited parsedRoot path nodeRows newValue =
     (if path = [] then
        Inr (if isEditingObjectFields nodeRows \<and> plain_object (Some newValue) \<and>
                plain_object (Some parsedRoot)
             then JObj (spread (props parsedRoot) (props newValue))
             else newValue)
      else
        (case walk (Some parsedRoot) (butlast path) of
           Inl e \<Rightarrow> Inl e
         | Inr None \<Rightarrow> Inl UnresolvedPath
         | Inr (Some c) \<Rightarrow>
             (case write_target c (last path) nodeRows newValue of
                Inl e \<Rightarrow> Inl e
              | Inr c' \<Rightarrow> Inr (put_at parsedRoot (butlast path) c'))))"

text \<open>\<^verbatim>\<open>currentJson ? JSON.parse(currentJson) : {}\<close>.\<close>

definition parse_document :: "js_env \<Rightarrow> string \<Rightarrow> error + jsval" where
  "parse_document env currentJson =
     (if currentJson \<noteq> [] then
        (case JSON_parse env currentJson of None \<Rightarrow> Inl SyntaxError | Some r \<Rightarrow> Inr r)
      else Inr (JObj []))"

definition rows_of :: "NodeData option \<Rightarrow> row list" where
  "rows_of nodeData = (case nodeData of None \<Rightarrow> [] | Some nd \<Rightarrow> nd_text nd)"

definition path_of :: "NodeData option \<Rightarrow> seg list" where
  "path_of nodeData = (case nodeData of None \<Rightarrow> [] | Some nd \<Rightarrow> nd_path nd)"

text \<open>The effects of a successful save that writes the text \<open>doc\<close>.\<close>

definition saved :: "js_env \<Rightarrow> string \<Rightarrow> effect list" where
  "saved env doc =
     [SetJson doc] @ emitJsonUpdate env doc @
     [SetIsEditing False, SetEditedText [], SetError None, OnClose]"

text \<open>Objects and arrays are the containers.\<close>

fun is_container :: "jsval \<Rightarrow> bool" where
  "is_container (JObj kvs) = True"
| "is_container (JArr xs) = True"
| "is_container v = False"

text \<open>
  A value as \<^verbatim>\<open>JSON.parse\<close> builds it: the property names of every object are
  distinct.
\<close>

fun well_formed :: "jsval \<Rightarrow> bool" where
  "well_formed (JArr xs) = list_all well_formed xs"
| "well_formed (JObj kvs) =
     (distinct (map fst kvs) \<and> list_all (\<lambda>kv. well_formed (snd kv)) kvs)"
| "well_formed v = True"

text \<open>
  What the results on the written text need of the host: \<^verbatim>\<open>JSON.parse\<close> gives back
  the value that \<^verbatim>\<open>JSON.stringify\<close> was given, it builds objects with distinct
  property names, and it throws on the empty text.
\<close>

definition json_codec :: "js_env \<Rightarrow> bool" where
  "json_codec env =
     ((\<forall>v. well_formed v \<longrightarrow> JSON_parse env (JSON_stringify env v) = Some v) \<and>
      (\<forall>s v. JSON_parse env s = Some v \<longrightarrow> well_formed v) \<and>
      JSON_parse env [] = None)"

section \<open>The listener of the editor page\<close>

text \<open>
  The page keeps \<^verbatim>\<open>editorValue\<close> as React state and a \<^verbatim>\<open>monacoRef\<close> that may hold an
  editor (\<open>None\<close> when \<^verbatim>\<open>monacoRef.current\<close> is \<^verbatim>\<open>null\<close>, otherwise the text that
  \<^verbatim>\<open>getValue()\<close> returns).
\<close>

record editor =
  editorValue :: string
  monacoRef :: "string option"

datatype editor_effect = SetEditorValue string | MonacoSetValue string

text \<open>The function given to \<^verbatim>\<open>setEditorValue\<close>.\<close>

definition updater :: "string \<Rightarrow> string \<Rightarrow> string" where
  "updater newJson prev = (if prev = newJson then prev else newJson)"

text \<open>
  \<^verbatim>\<open>setEditorValue(f)\<close>: React computes the next state from the previous one and
  updates only when the two differ.
\<close>

definition setEditorValue :: "(string \<Rightarrow> string) \<Rightarrow> editor \<Rightarrow> editor_effect list" where
  "setEditorValue f ed =
     (let next = f (editorValue ed) in if next = editorValue ed then [] else [SetEditorValue next])"

text \<open>
  The \<^verbatim>\<open>json:update\<close> listener; \<open>detail\<close> is the string of the event, and an empty
  string is falsy.
\<close>

definition handler :: "editor \<Rightarrow> string \<Rightarrow> editor_effect list" where
  "handler ed detail =
     (if detail = [] then []
      else let newJson = detail in
        setEditorValue (updater newJson) ed @
        (case monacoRef ed of
           None \<Rightarrow> []
         | Some current \<Rightarrow> if current \<noteq> newJson then [MonacoSetValue newJson] else []))"

fun apply_editor_effect :: "editor_effect \<Rightarrow> editor \<Rightarrow> editor" where
  "apply_editor_effect (SetEditorValue s) ed = ed\<lparr>editorValue := s\<rparr>"
| "apply_editor_effect (MonacoSetValue s) ed = ed\<lparr>monacoRef := Some s\<rparr>"

definition deliver :: "string \<Rightarrow> editor \<Rightarrow> editor" where
  "deliver detail ed = fold apply_editor_effect (handler ed detail) ed"

section \<open>A host for concrete runs\<close>

text \<open>
  An instance of the host on which the examples are computed: JSON text with integer
  numbers, with strings in which the double quote and the backslash are escaped and every
  other character stands for itself, written as \<^verbatim>\<open>JSON.stringify(_, null, 2)\<close> writes
  it, with two spaces of indentation per level.
\<close>

definition escape_char :: "char \<Rightarrow> string" where
  "escape_char c =
     (if c = CHR 0x22 then [CHR 0x5C, CHR 0x22]
      else if c = CHR 0x5C then [CHR 0x5C, CHR 0x5C]
      else [c])"

definition quote :: "string \<Rightarrow> string" where
  "quote s = CHR 0x22 # concat (map escape_char s) @ [CHR 0x22]"

definition indent :: "nat \<Rightarrow> string" where
  "indent n = replicate n CHR '' ''"

fun join_lines :: "string list \<Rightarrow> string" where
  "join_lines [] = []"
| "join_lines [l] = l"
| "join_lines (l # ls) = l @ '',\<newline>'' @ join_lines ls"

fun stringify_at :: "nat \<Rightarrow> jsval \<Rightarrow> string" where
  "stringify_at n JNull = ''null''"
| "stringify_at n (JBool b) = (if b then ''true'' else ''false'')"
| "stringify_at n (JNum i) = show_int i"
| "stringify_at n (JStr s) = quote s"
| "stringify_at n (JArr xs) =
     (if xs = [] then ''[]''
      else ''[\<newline>'' @
           join_lines (map (\<lambda>x. indent (n + 2) @ stringify_at (n + 2) x) xs) @
           ''\<newline>'' @ indent n @ '']'')"
| "stringify_at n (JObj kvs) =
     (if kvs = [] then ''{}''
      else ''{\<newline>'' @
           join_lines (map (\<lambda>kv. indent (n + 2) @ quote (fst kv) @ '': '' @
                                  stringify_at (n + 2) (snd kv)) kvs) @
           ''\<newline>'' @ indent n @ ''}'')"

definition is_ws :: "char \<Rightarrow> bool" where
  "is_ws c = (c = CHR '' '' \<or> c = CHR 0x0A \<or> c = CHR 0x0D \<or> c = CHR 0x09)"

definition skip_ws :: "string \<Rightarrow> string" where
  "skip_ws = dropWhile is_ws"

text \<open>The characters of a string literal after the opening quote, and the rest.\<close>

fun parse_chars :: "string \<Rightarrow> (string \<times> string) option" where
  "parse_chars [] = None"
| "parse_chars (c # cs) =
     (if c = CHR 0x22 then Some ([], cs)
      else if c = CHR 0x5C then
        (case cs of
           [] \<Rightarrow> None
         | d # ds \<Rightarrow>
             if d = CHR 0x22 \<or> d = CHR 0x5C
             then (case parse_chars ds of None \<Rightarrow> None | Some (s, r) \<Rightarrow> Some (d # s, r))
             else None)
      else (case parse_chars cs of None \<Rightarrow> None | Some (s, r) \<Rightarrow> Some (c # s, r)))"

definition is_digit :: "char \<Rightarrow> bool" where
  "is_digit c = (digit_of c \<noteq> None)"

definition parse_nat :: "string \<Rightarrow> (nat \<times> string) option" where
  "parse_nat s =
     (let ds = takeWhile is_digit s in
      if ds = [] then None
      else case read_digits 0 ds of
             None \<Rightarrow> None
           | Some n \<Rightarrow> if show_nat n = ds then Some (n, dropWhile is_digit s) else None)"

definition parse_number :: "string \<Rightarrow> (int \<times> string) option" where
  "parse_number s =
     (case s of
        [] \<Rightarrow> None
      | c # r \<Rightarrow>
          if c = CHR ''-''
          then (case parse_nat r of None \<Rightarrow> None | Some (n, r') \<Rightarrow> Some (- int n, r'))
          else (case parse_nat s of None \<Rightarrow> None | Some (n, r') \<Rightarrow> Some (int n, r')))"

definition strip :: "string \<Rightarrow> string \<Rightarrow> string option" where
  "strip p s = (if take (length p) s = p then Some (drop (length p) s) else None)"

text \<open>
  The parser descends with fuel, one unit per value and per element; \<open>json_parse\<close>
  gives it more than the text can use. An object is built property by property, so a
  repeated name keeps its first place and its last value.
\<close>

fun parse_value :: "nat \<Rightarrow> string \<Rightarrow> (jsval \<times> string) option"
  and parse_elems :: "nat \<Rightarrow> string \<Rightarrow> (jsval list \<times> string) option"
  and parse_members :: "nat \<Rightarrow> string \<Rightarrow> ((string \<times> jsval) list \<times> string) option"
where
  "parse_value 0 s = None"
| "parse_value (Suc f) s =
     (case skip_ws s of
        [] \<Rightarrow> None
      | c # r \<Rightarrow>
          if c = CHR ''['' then
            (case skip_ws r of
               [] \<Rightarrow> None
             | d # r' \<Rightarrow>
                 if d = CHR '']'' then Some (JArr [], r')
                 else (case parse_elems f r of
                         None \<Rightarrow> None
                       | Some (xs, r'') \<Rightarrow> Some (JArr xs, r'')))
          else if c = CHR ''{'' then
            (case skip_ws r of
               [] \<Rightarrow> None
             | d # r' \<Rightarrow>
                 if d = CHR ''}'' then Some (JObj [], r')
                 else (case parse_members f r of
                         None \<Rightarrow> None
                       | Some (kvs, r'') \<Rightarrow> Some (JObj (spread [] kvs), r'')))
          else if c = CHR 0x22 then
            (case parse_chars r of None \<Rightarrow> None | Some (str, r') \<Rightarrow> Some (JStr str, r'))
          else if c = CHR ''n'' then
            (case strip ''ull'' r of None \<Rightarrow> None | Some r' \<Rightarrow> Some (JNull, r'))
          else if c = CHR ''t'' then
            (case strip ''rue'' r of None \<Rightarrow> None | Some r' \<Rightarrow> Some (JBool True, r'))
          else if c = CHR ''f'' then
            (case strip ''alse'' r of None \<Rightarrow> None | Some r' \<Rightarrow> Some (JBool False, r'))
          else (case parse_number (c # r) of
                  None \<Rightarrow> None
                | Some (i, r') \<Rightarrow> Some (JNum i, r')))"
| "parse_elems 0 s = None"
| "parse_elems (Suc f) s =
     (case parse_value f s of
        None \<Rightarrow> None
      | Some (x, r) \<Rightarrow>
          (case skip_ws r of
             [] \<Rightarrow> None
           | c # r' \<Rightarrow>
               if c = CHR '']'' then Some ([x], r')
               else if c = CHR '','' then
                 (case parse_elems f r' of
                    None \<Rightarrow> None
                  | Some (xs, r'') \<Rightarrow> Some (x # xs, r''))
               else None))"
| "parse_members 0 s = None"
| "parse_members (Suc f) s =
     (case skip_ws s of
        [] \<Rightarrow> None
      | q # r0 \<Rightarrow>
          if q \<noteq> CHR 0x22 then None
          else (case parse_chars r0 of
                  None \<Rightarrow> None
                | Some (k, r1) \<Rightarrow>
                    (case skip_ws r1 of
                       [] \<Rightarrow> None
                     | c # r2 \<Rightarrow>
                         if c \<noteq> CHR '':'' then None
                         else (case parse_value f r2 of
                                 None \<Rightarrow> None
                               | Some (x, r3) \<Rightarrow>
                                   (case skip_ws r3 of
                                      [] \<Rightarrow> None
                                    | e # r4 \<Rightarrow>
                                        if e = CHR ''}'' then Some ([(k, x)], r4)
                                        else if e = CHR '','' then
                                          (case parse_members f r4 of
                                             None \<Rightarrow> None
                                           | Some (kvs, r5) \<Rightarrow> Some ((k, x) # kvs, r5))
                                        else None)))))"

definition json_parse :: "string \<Rightarrow> jsval option" where
  "json_parse s =
     (case parse_value (Suc (length s)) s of
        None \<Rightarrow> None
      | Some (v, r) \<Rightarrow> if skip_ws r = [] then Some v else None)"

definition json_stringify :: "jsval \<Rightarrow> string" where
  "json_stringify v = stringify_at 0 v"

text \<open>A browser, and a host in which \<^verbatim>\<open>CustomEvent\<close> is blocked.\<close>

definition browser :: js_env where
  "browser = \<lparr>JSON_parse = json_parse, JSON_stringify = json_stringify, CustomEvent_ok = True\<rparr>"

definition blocked :: js_env where
  "blocked = \<lparr>JSON_parse = json_parse, JSON_stringify = json_stringify, CustomEvent_ok = False\<rparr>"

section \<open>Auxiliary notions\<close>

text \<open>What a successful write puts under the last key.\<close>

definition written :: "jsval option \<Rightarrow> row list \<Rightarrow> jsval \<Rightarrow> jsval" where
  "written target rows v =
     (if isEditingObjectFields rows \<and> plain_object target \<and> plain_object (Some v)
      then JObj (spread (props (the target)) (props v))
      else v)"

text \<open>What may follow a number: anything but a digit.\<close>

definition ok_rest :: "string \<Rightarrow> bool" where
  "ok_rest rest = (case rest of [] \<Rightarrow> True | c # cs \<Rightarrow> \<not> is_digit c)"

text \<open>The first character of a serialised value starts a value and nothing else.\<close>

definition starts_value :: "char \<Rightarrow> bool" where
  "starts_value c = (\<not> is_ws c \<and> c \<noteq> CHR '']'' \<and> c \<noteq> CHR ''}'')"

section \<open>Properties of the operations\<close>

lemma map_of_obj_set: "map_of (obj_set k v kvs) = (map_of kvs)(k \<mapsto> v)"
  by (induction kvs) (auto simp: fun_eq_iff)

lemma keys_obj_set:
  "map fst (obj_set k v kvs) = (if k \<in> fst ` set kvs then map fst kvs else map fst kvs @ [k])"
  by (induction kvs) (force split: if_splits)+

lemma distinct_obj_set: "distinct (map fst kvs) \<Longrightarrow> distinct (map fst (obj_set k v kvs))"
  by (simp add: keys_obj_set)

lemma set_obj_set: "set (obj_set k v kvs) \<subseteq> insert (k, v) (set kvs)"
  by (induction kvs) (auto split: if_splits)

lemma obj_set_same: "map_of kvs k = Some v \<Longrightarrow> obj_set k v kvs = kvs"
  by (induction kvs) (auto split: if_splits)

lemma obj_set_absent: "map_of kvs k = None \<Longrightarrow> obj_set k v kvs = kvs @ [(k, v)]"
  by (induction kvs) (auto split: if_splits)

lemma obj_set_twice: "obj_set k v (obj_set k v' kvs) = obj_set k v kvs"
  by (induction kvs) auto

lemma spread_fold: "spread a b = fold (\<lambda>kv. obj_set (fst kv) (snd kv)) b (fold (\<lambda>kv. obj_set (fst kv) (snd kv)) a [])"
  by (simp add: spread_def)

lemma distinct_fold_set:
  "distinct (map fst acc) \<Longrightarrow> distinct (map fst (fold (\<lambda>kv. obj_set (fst kv) (snd kv)) xs acc))"
  by (induction xs arbitrary: acc) (auto simp: distinct_obj_set)

lemma set_fold_set:
  "set (fold (\<lambda>kv. obj_set (fst kv) (snd kv)) xs acc) \<subseteq> set xs \<union> set acc"
proof (induction xs arbitrary: acc)
  case Nil
  then show ?case by simp
next
  case (Cons x xs)
  have "set (obj_set (fst x) (snd x) acc) \<subseteq> insert x (set acc)"
    using set_obj_set [of "fst x" "snd x" acc] by simp
  with Cons [of "obj_set (fst x) (snd x) acc"] show ?case by auto
qed

lemma fold_set_fresh:
  "distinct (map fst xs) \<Longrightarrow> fst ` set xs \<inter> fst ` set acc = {} \<Longrightarrow>
   fold (\<lambda>kv. obj_set (fst kv) (snd kv)) xs acc = acc @ xs"
proof (induction xs arbitrary: acc)
  case Nil
  then show ?case by simp
next
  case (Cons x xs)
  have a: "map_of acc (fst x) = None"
    using Cons.prems(2) by (auto simp: map_of_eq_None_iff)
  have "fold (\<lambda>kv. obj_set (fst kv) (snd kv)) xs (acc @ [x]) = (acc @ [x]) @ xs"
    using Cons.prems by (intro Cons.IH) auto
  then show ?case by (simp add: obj_set_absent [OF a])
qed

lemma spread_empty: "distinct (map fst kvs) \<Longrightarrow> spread [] kvs = kvs"
  using fold_set_fresh [of kvs "[]"] by (simp add: spread_def)

lemma fold_set_present:
  "distinct (map fst xs) \<Longrightarrow> \<forall>kv \<in> set xs. map_of acc (fst kv) = Some (snd kv) \<Longrightarrow>
   fold (\<lambda>kv. obj_set (fst kv) (snd kv)) xs acc = acc"
  by (induction xs) (auto simp: obj_set_same)

lemma map_of_fold_set:
  "map_of (fold (\<lambda>kv. obj_set (fst kv) (snd kv)) xs acc) = map_of acc ++ map_of (rev xs)"
proof (induction xs arbitrary: acc)
  case Nil
  then show ?case by simp
next
  case (Cons x xs)
  show ?case
    by (simp add: Cons.IH map_of_obj_set map_add_def fun_eq_iff split: option.splits)
qed

lemma map_of_rev_distinct: "distinct (map fst xs) \<Longrightarrow> map_of (rev xs) = map_of xs"
  by (rule map_of_inject_set [THEN iffD2]) (auto simp: rev_map [symmetric])

lemma map_of_spread:
  "distinct (map fst a) \<Longrightarrow> distinct (map fst b) \<Longrightarrow> map_of (spread a b) = map_of a ++ map_of b"
  by (simp add: spread_fold map_of_fold_set map_of_rev_distinct)

lemma distinct_spread: "distinct (map fst (spread a b))"
  by (simp add: spread_def distinct_fold_set)

lemma spread_again:
  assumes "distinct (map fst b)"
  shows "spread (spread a b) b = spread a b"
proof -
  let ?put = "\<lambda>kv. obj_set (fst kv) (snd kv)"
  have d: "distinct (map fst (spread a b))" by (rule distinct_spread)
  have "spread (spread a b) b = fold ?put b (spread [] (spread a b))"
    by (simp add: spread_def)
  also have "\<dots> = fold ?put b (spread a b)"
    by (simp add: spread_empty [OF d])
  also have "\<dots> = spread a b"
  proof (rule fold_set_present [OF assms])
    have "map_of (spread a b) = map_of (fold ?put a []) ++ map_of (rev b)"
      by (simp add: spread_def map_of_fold_set)
    then show "\<forall>kv \<in> set b. map_of (spread a b) (fst kv) = Some (snd kv)"
      using assms by (auto simp: map_of_rev_distinct map_add_def eq_key_imp_eq_value split: option.splits)
  qed
  finally show ?thesis .
qed

lemma spread_self:
  assumes "distinct (map fst b)"
  shows "spread b b = b"
proof -
  have "spread b b = spread (spread [] b) b" by (simp add: spread_empty [OF assms])
  also have "\<dots> = spread [] b" by (rule spread_again [OF assms])
  finally show ?thesis by (simp add: spread_empty [OF assms])
qed

subsection \<open>The handler in terms of the edited value\<close>

lemma save_edit_edited:
  "save_edit env currentJson nodeData editedText =
     (case parse_document env currentJson of
        Inl e \<Rightarrow> Inl e
      | Inr parsedRoot \<Rightarrow>
          (case new_value env (rows_of nodeData) editedText of
             Inl e \<Rightarrow> Inl e
           | Inr newValue \<Rightarrow>
               (case edited parsedRoot (path_of nodeData) (rows_of nodeData) newValue of
                  Inl e \<Rightarrow> Inl e
                | Inr v \<Rightarrow>
                    Inr ([SetJson (JSON_stringify env v)] @
                         emitJsonUpdate env (JSON_stringify env v)))))"
  by (auto simp: save_edit_def parse_document_def rows_of_def path_of_def edited_def
        traverseToParent_def Let_def
      split: sum.splits option.splits prod.splits)

lemma onClick_edited:
  "onClick env currentJson nodeData editedText =
     (case parse_document env currentJson of
        Inl e \<Rightarrow> [SetError (Some e)]
      | Inr parsedRoot \<Rightarrow>
          (case new_value env (rows_of nodeData) editedText of
             Inl e \<Rightarrow> [SetError (Some e)]
           | Inr newValue \<Rightarrow>
               (case edited parsedRoot (path_of nodeData) (rows_of nodeData) newValue of
                  Inl e \<Rightarrow> [SetError (Some e)]
                | Inr v \<Rightarrow> saved env (JSON_stringify env v))))"
  by (simp add: onClick_def save_edit_edited saved_def split: sum.splits)

subsection \<open>Walking and putting back\<close>

lemma get_prop_error: "get_prop c s = Inl e \<Longrightarrow> e = TypeError"
  by (cases "(c, s)" rule: get_prop.cases) auto

lemma walk_error: "walk c p = Inl e \<Longrightarrow> e = TypeError"
  by (induction c p rule: walk.induct) (auto split: sum.splits dest: get_prop_error)

lemma set_prop_error: "set_prop c s v = Inl e \<Longrightarrow> e = TypeError"
  by (cases c) auto

lemma set_prop_container: "set_prop c s v = Inr c' \<Longrightarrow> is_container c \<and> is_container c'"
  by (cases c) (auto split: option.splits if_splits)

lemma walk_None: "walk None p = Inr (Some c) \<Longrightarrow> False"
  by (cases p) auto

lemma walk_primitive:
  "\<not> is_container r \<Longrightarrow> walk (Some r) p = Inr (Some c) \<Longrightarrow> \<not> is_container c"
proof (induction p arbitrary: r)
  case Nil
  then show ?case by simp
next
  case (Cons s p)
  show ?case
  proof (cases r)
    case (JStr cs)
    with Cons.prems(2) obtain t where t: "get_prop (Some r) s = Inr t" "walk t p = Inr (Some c)"
      by (auto split: sum.splits)
    from t(1) JStr have "t = None \<or> (\<exists>ch. t = Some (JStr [ch]))"
      by (auto split: option.splits if_splits)
    with t(2) Cons.IH [of "JStr [ch]" for ch] show ?thesis
      by (auto dest: walk_None)
  qed (use Cons.prems in \<open>auto dest: walk_None\<close>)
qed

lemma walk_put_at:
  "walk (Some r) p = Inr (Some c) \<Longrightarrow> is_container c \<Longrightarrow>
   walk (Some (put_at r p c')) p = Inr (Some c')"
proof (induction p arbitrary: r)
  case Nil
  then show ?case by simp
next
  case (Cons s p)
  show ?case
  proof (cases r)
    case (JObj kvs)
    with Cons.prems obtain child where ch: "map_of kvs (seg_name s) = Some child"
        "walk (Some child) p = Inr (Some c)"
      by (cases "map_of kvs (seg_name s)") (auto dest: walk_None)
    with Cons.IH [OF ch(2) Cons.prems(2)] JObj show ?thesis
      by (simp add: map_of_obj_set)
  next
    case (JArr xs)
    with Cons.prems obtain i where i: "seg_index s = Some i" "i < length xs"
        "walk (Some (xs ! i)) p = Inr (Some c)"
      by (auto split: option.splits if_splits dest: walk_None)
    with Cons.IH [OF i(3) Cons.prems(2)] JArr show ?thesis
      by simp
  next
    case (JStr cs)
    then have "\<not> is_container r" by simp
    from walk_primitive [OF this Cons.prems(1)] Cons.prems(2) show ?thesis by simp
  qed (use Cons.prems in \<open>auto dest: walk_None\<close>)
qed

lemma put_at_put_at:
  "walk (Some r) p = Inr (Some c) \<Longrightarrow> is_container c \<Longrightarrow>
   put_at (put_at r p c') p c'' = put_at r p c''"
proof (induction p arbitrary: r)
  case Nil
  then show ?case by simp
next
  case (Cons s p)
  show ?case
  proof (cases r)
    case (JObj kvs)
    with Cons.prems obtain child where ch: "map_of kvs (seg_name s) = Some child"
        "walk (Some child) p = Inr (Some c)"
      by (cases "map_of kvs (seg_name s)") (auto dest: walk_None)
    with Cons.IH [OF ch(2) Cons.prems(2)] JObj show ?thesis
      by (simp add: map_of_obj_set obj_set_twice)
  next
    case (JArr xs)
    with Cons.prems obtain i where i: "seg_index s = Some i" "i < length xs"
        "walk (Some (xs ! i)) p = Inr (Some c)"
      by (auto split: option.splits if_splits dest: walk_None)
    with Cons.IH [OF i(3) Cons.prems(2)] JArr show ?thesis
      by simp
  next
    case (JStr cs)
    then have "\<not> is_container r" by simp
    from walk_primitive [OF this Cons.prems(1)] Cons.prems(2) show ?thesis by simp
  qed (use Cons.prems in \<open>auto dest: walk_None\<close>)
qed

subsection \<open>Plain objects\<close>

lemma plain_object_iff: "plain_object x = (\<exists>kvs. x = Some (JObj kvs))"
  by (cases x rule: truthy.cases) (auto simp: plain_object_def)

lemma props_well_formed: "well_formed v \<Longrightarrow> distinct (map fst (props v))"
  by (cases v) auto

subsection \<open>Well-formed values stay well-formed\<close>

lemma well_formed_obj_set:
  "well_formed (JObj kvs) \<Longrightarrow> well_formed v \<Longrightarrow> well_formed (JObj (obj_set k v kvs))"
  using set_obj_set [of k v kvs] by (auto simp: distinct_obj_set list_all_iff)

lemma well_formed_obj_delete:
  "well_formed (JObj kvs) \<Longrightarrow> well_formed (JObj (obj_delete k kvs))"
  by (auto simp: obj_delete_def list_all_iff distinct_map_filter)

lemma well_formed_spread:
  "list_all (\<lambda>kv. well_formed (snd kv)) a \<Longrightarrow> list_all (\<lambda>kv. well_formed (snd kv)) b \<Longrightarrow>
   well_formed (JObj (spread a b))"
proof -
  assume a: "list_all (\<lambda>kv. well_formed (snd kv)) a" and b: "list_all (\<lambda>kv. well_formed (snd kv)) b"
  have "set (spread a b) \<subseteq> set a \<union> set b"
    using set_fold_set [of "a @ b" "[]"] by (simp add: spread_def)
  with a b have "list_all (\<lambda>kv. well_formed (snd kv)) (spread a b)"
    by (auto simp: list_all_iff)
  then show ?thesis by (simp add: distinct_spread)
qed

lemma props_values: "well_formed v \<Longrightarrow> list_all (\<lambda>kv. well_formed (snd kv)) (props v)"
  by (cases v) auto

lemma well_formed_get_prop:
  "well_formed c \<Longrightarrow> get_prop (Some c) s = Inr (Some t) \<Longrightarrow> well_formed t"
  by (cases c) (auto simp: list_all_iff split: option.splits if_splits dest!: map_of_SomeD)

lemma in_set_update: "x \<in> set (xs[i := v]) \<Longrightarrow> x = v \<or> x \<in> set xs"
  using set_update_subset_insert [of xs i v] by auto

lemma well_formed_set_prop:
  "well_formed c \<Longrightarrow> well_formed v \<Longrightarrow> set_prop c s v = Inr c' \<Longrightarrow> well_formed c'"
proof (cases c)
  case (JArr xs)
  assume "well_formed c" "well_formed v" "set_prop c s v = Inr c'"
  with JArr show ?thesis
    by (auto simp: list_all_iff split: option.splits if_splits dest!: in_set_update)
next
  case (JObj kvs)
  assume "well_formed c" "well_formed v" "set_prop c s v = Inr c'"
  with JObj well_formed_obj_set [of kvs v "seg_name s"] show ?thesis by auto
qed auto

lemma well_formed_walk:
  "well_formed r \<Longrightarrow> walk (Some r) p = Inr (Some c) \<Longrightarrow> well_formed c"
proof (induction p arbitrary: r)
  case Nil
  then show ?case by simp
next
  case (Cons s p)
  from Cons.prems(2) obtain b where b: "get_prop (Some r) s = Inr b" "walk b p = Inr (Some c)"
    by (cases "get_prop (Some r) s") auto
  from b(2) obtain t where "b = Some t" by (cases b) (auto dest: walk_None)
  with b have t: "get_prop (Some r) s = Inr (Some t)" "walk (Some t) p = Inr (Some c)"
    by simp_all
  from Cons.IH [OF well_formed_get_prop [OF Cons.prems(1) t(1)] t(2)] show ?case .
qed

lemma well_formed_put_at:
  "well_formed r \<Longrightarrow> well_formed c \<Longrightarrow> well_formed (put_at r p c)"
proof (induction r p c rule: put_at.induct)
  case (2 kvs s ss c)
  show ?case
  proof (cases "map_of kvs (seg_name s)")
    case None
    with 2 show ?thesis by simp
  next
    case (Some child)
    with "2.prems" have "well_formed child"
      by (auto simp: list_all_iff dest!: map_of_SomeD)
    with 2 Some have "well_formed (put_at child ss c)" by simp
    with "2.prems"(1) Some show ?thesis
      using well_formed_obj_set [of kvs "put_at child ss c" "seg_name s"] by simp
  qed
next
  case (3 xs s ss c)
  show ?case
  proof (cases "seg_index s")
    case None
    with 3 show ?thesis by simp
  next
    case (Some i)
    show ?thesis
    proof (cases "i < length xs")
      case True
      with "3.prems" have "well_formed (xs ! i)" by (auto simp: list_all_iff)
      with 3 Some True have "well_formed (put_at (xs ! i) ss c)" by simp
      with "3.prems"(1) Some True show ?thesis
        by (auto simp: list_all_iff dest: in_set_update)
    next
      case False
      with 3 Some show ?thesis by simp
    qed
  qed
qed auto

lemma well_formed_write_target:
  assumes "well_formed c" "well_formed v" "write_target c k rows v = Inr c'"
  shows "well_formed c'"
proof -
  from assms(3) obtain t where t: "get_prop (Some c) k = Inr t"
    by (cases "get_prop (Some c) k") (auto simp: write_target_def)
  have wt: "\<And>kvs. t = Some (JObj kvs) \<Longrightarrow> well_formed (JObj kvs)"
    using well_formed_get_prop [OF assms(1), of k] t by auto
  have sp: "\<And>kvs. t = Some (JObj kvs) \<Longrightarrow> well_formed (JObj (spread kvs (props v)))"
    using wt props_values [OF assms(2)] by (intro well_formed_spread) auto
  have nv: "\<And>ws. v = JObj ws \<Longrightarrow> length ws = 1 \<Longrightarrow> well_formed (snd (ws ! 0))"
    using assms(2) by (auto simp: list_all_length)
  have "\<exists>x. well_formed x \<and> set_prop c k x = Inr c'"
  proof (cases "isEditingObjectFields rows \<and> plain_object t \<and> plain_object (Some v)")
    case True
    then obtain kvs where "t = Some (JObj kvs)" by (auto simp: plain_object_iff)
    with True assms(3) t have "set_prop c k (JObj (spread kvs (props v))) = Inr c'"
      by (auto simp: write_target_def)
    with sp [of kvs] \<open>t = Some (JObj kvs)\<close> show ?thesis by blast
  next
    case False
    note merge = this
    show ?thesis
    proof (cases "length rows = 1 \<and> key_truthy (row_key (rows ! 0)) \<and>
                  plain_object (Some v) \<and> length (props v) = 1")
      case True
      then obtain ws where ws: "v = JObj ws" "length ws = 1" by (auto simp: plain_object_iff)
      show ?thesis
      proof (cases "typeof t = ''object'' \<and> \<not> isArray t")
        case obj: True
        with assms(3) t merge True obtain parentObj where p: "t = Some (JObj parentObj)"
          by (auto simp: write_target_def Let_def split: option.splits jsval.splits)
        have "well_formed (JObj (obj_set (fst (ws ! 0)) (snd (ws ! 0)) parentObj))"
          using wt [OF p] nv [OF ws] by (rule well_formed_obj_set)
        moreover from this
        have "well_formed (JObj (obj_delete (the (row_key (rows ! 0)))
                 (obj_set (fst (ws ! 0)) (snd (ws ! 0)) parentObj)))"
          by (rule well_formed_obj_delete)
        moreover have "set_prop c k (JObj (obj_set (fst (ws ! 0)) (snd (ws ! 0)) parentObj)) = Inr c' \<or>
            set_prop c k (JObj (obj_delete (the (row_key (rows ! 0)))
                 (obj_set (fst (ws ! 0)) (snd (ws ! 0)) parentObj))) = Inr c'"
          using assms(3) t merge True obj p ws
          by (auto simp: write_target_def Let_def split: if_splits)
        ultimately show ?thesis by blast
      next
        case False
        with assms(3) t merge True have "set_prop c k v = Inr c'"
          by (auto simp: write_target_def Let_def)
        with assms(2) show ?thesis by blast
      qed
    next
      case False
      with assms(3) t merge have "set_prop c k v = Inr c'"
        by (auto simp: write_target_def)
      with assms(2) show ?thesis by blast
    qed
  qed
  then show ?thesis
    using well_formed_set_prop [OF assms(1)] by blast
qed

subsection \<open>Writing the same value again\<close>

lemma extend_update:
  "\<not> i < length xs \<Longrightarrow>
   (xs @ replicate (i - length xs) z @ [x])[i := y] = xs @ replicate (i - length xs) z @ [y]"
  using list_update_length [of "xs @ replicate (i - length xs) z" x "[]" y] by simp

lemma extend_nth:
  "\<not> i < length xs \<Longrightarrow> (xs @ replicate (i - length xs) z @ [x]) ! i = x"
  using nth_append_length [of "xs @ replicate (i - length xs) z" x "[]"] by simp

lemma set_prop_again: "set_prop c k x = Inr c' \<Longrightarrow> set_prop c' k x = Inr c'"
  by (cases c) (auto simp: obj_set_twice extend_update split: option.splits if_splits)

lemma get_after_set:
  "set_prop c k x = Inr c' \<Longrightarrow> get_prop (Some c') k = Inr (Some x) \<or> c' = c"
  by (cases c) (auto simp: map_of_obj_set extend_nth split: option.splits if_splits)

lemma single_keyed_row:
  "length rows = Suc 0 \<Longrightarrow> key_truthy (row_key (rows ! 0)) \<Longrightarrow> isEditingObjectFields rows"
  by (cases rows) (auto simp: isEditingObjectFields_def)

lemma write_target_written:
  assumes "write_target c k rows v = Inr c'"
  shows "\<exists>t. get_prop (Some c) k = Inr t \<and> set_prop c k (written t rows v) = Inr c'"
proof -
  from assms obtain t where t: "get_prop (Some c) k = Inr t"
    by (cases "get_prop (Some c) k") (auto simp: write_target_def)
  show ?thesis
  proof (cases "isEditingObjectFields rows \<and> plain_object t \<and> plain_object (Some v)")
    case True
    with assms t show ?thesis by (auto simp: write_target_def written_def)
  next
    case False
    note merge = this
    show ?thesis
    proof (cases "length rows = 1 \<and> key_truthy (row_key (rows ! 0)) \<and>
                  plain_object (Some v) \<and> length (props v) = 1")
      case True
      with merge have np: "\<not> plain_object t" by (auto dest: single_keyed_row)
      show ?thesis
      proof (cases "typeof t = ''object'' \<and> \<not> isArray t")
        case obj: True
        with np have "t = Some JNull"
          by (cases t rule: truthy.cases) (auto simp: plain_object_def)
        with assms t merge True show ?thesis
          by (auto simp: write_target_def Let_def)
      next
        case False
        with assms t merge True show ?thesis
          by (auto simp: write_target_def Let_def written_def)
      qed
    next
      case False
      with assms t merge show ?thesis
        by (auto simp: write_target_def written_def)
    qed
  qed
qed

lemma write_target_eq:
  "write_target c k rows v =
     (case get_prop (Some c) k of
        Inl e \<Rightarrow> Inl e
      | Inr t \<Rightarrow>
          if \<not> (isEditingObjectFields rows \<and> plain_object t \<and> plain_object (Some v)) \<and>
             length rows = 1 \<and> key_truthy (row_key (rows ! 0)) \<and>
             plain_object (Some v) \<and> length (props v) = 1 \<and> t = Some JNull
          then Inl TypeError
          else set_prop c k (written t rows v))"
proof (cases "get_prop (Some c) k")
  case (Inl e)
  then show ?thesis by (simp add: write_target_def)
next
  case (Inr t)
  show ?thesis
  proof (cases "isEditingObjectFields rows \<and> plain_object t \<and> plain_object (Some v)")
    case True
    with Inr show ?thesis by (auto simp: write_target_def written_def)
  next
    case False
    note merge = this
    show ?thesis
    proof (cases "length rows = 1 \<and> key_truthy (row_key (rows ! 0)) \<and>
                  plain_object (Some v) \<and> length (props v) = 1")
      case True
      with merge have np: "\<not> plain_object t" by (auto dest: single_keyed_row)
      show ?thesis
      proof (cases "typeof t = ''object'' \<and> \<not> isArray t")
        case obj: True
        with np have "t = Some JNull"
          by (cases t rule: truthy.cases) (auto simp: plain_object_def)
        with Inr merge True show ?thesis
          by (auto simp: write_target_def Let_def)
      next
        case False
        then have "t \<noteq> Some JNull" by auto
        with Inr np True False show ?thesis
          by (auto simp: write_target_def Let_def written_def)
      qed
    next
      case False
      with Inr merge show ?thesis
        by (auto simp: write_target_def written_def)
    qed
  qed
qed

lemma written_again:
  assumes "distinct (map fst (props v))"
  shows "written (Some (written t rows v)) rows v = written t rows v"
proof (cases "isEditingObjectFields rows \<and> plain_object (Some v)")
  case True
  then obtain n where n: "v = JObj n" by (auto simp: plain_object_iff)
  show ?thesis
  proof (cases "plain_object t")
    case True
    then obtain kvs where "t = Some (JObj kvs)" by (auto simp: plain_object_iff)
    with \<open>isEditingObjectFields rows \<and> plain_object (Some v)\<close> n assms show ?thesis
      by (simp add: written_def plain_object_iff spread_again)
  next
    case False
    with \<open>isEditingObjectFields rows \<and> plain_object (Some v)\<close> n assms show ?thesis
      by (simp add: written_def plain_object_iff spread_self)
  qed
next
  case False
  then show ?thesis by (auto simp: written_def)
qed

lemma written_not_null: "v \<noteq> JNull \<Longrightarrow> written t rows v \<noteq> JNull"
  by (auto simp: written_def)

lemma write_target_again:
  assumes w: "write_target c k rows v = Inr c'" and d: "distinct (map fst (props v))"
  shows "write_target c' k rows v = Inr c'"
proof -
  from write_target_written [OF w] obtain t where
    t: "get_prop (Some c) k = Inr t" "set_prop c k (written t rows v) = Inr c'"
    by blast
  from get_after_set [OF t(2)] show ?thesis
  proof
    assume "c' = c"
    with w show ?thesis by simp
  next
    assume g: "get_prop (Some c') k = Inr (Some (written t rows v))"
    have "\<not> (length rows = 1 \<and> key_truthy (row_key (rows ! 0)) \<and>
             plain_object (Some v) \<and> length (props v) = 1 \<and> written t rows v = JNull)"
      by (auto simp: written_def plain_object_iff)
    with g set_prop_again [OF t(2)] written_again [OF d, of t rows] show ?thesis
      by (simp add: write_target_eq)
  qed
qed

lemma write_target_container:
  "write_target c k rows v = Inr c' \<Longrightarrow> is_container c \<and> is_container c'"
  using write_target_written set_prop_container by blast

subsection \<open>Saving the same edit again\<close>

lemma edited_again:
  assumes e: "edited r p rows v = Inr v1" and d: "distinct (map fst (props v))"
  shows "edited v1 p rows v = Inr v1"
proof (cases "p = []")
  case True
  show ?thesis
  proof (cases "isEditingObjectFields rows \<and> plain_object (Some v)")
    case eo: True
    then obtain n where n: "v = JObj n" by (auto simp: plain_object_iff)
    show ?thesis
    proof (cases "plain_object (Some r)")
      case True
      then obtain kvs where "r = JObj kvs" by (auto simp: plain_object_iff)
      with e True eo n \<open>p = []\<close> d show ?thesis
        by (auto simp: edited_def plain_object_iff spread_again)
    next
      case False
      with e eo n \<open>p = []\<close> d show ?thesis
        by (auto simp: edited_def plain_object_iff spread_self)
    qed
  next
    case False
    with e True show ?thesis by (auto simp: edited_def)
  qed
next
  case False
  with e obtain c c' where c: "walk (Some r) (butlast p) = Inr (Some c)"
      "write_target c (last p) rows v = Inr c'" "v1 = put_at r (butlast p) c'"
    by (auto simp: edited_def split: sum.splits option.splits)
  from write_target_container [OF c(2)] have ic: "is_container c" "is_container c'"
    by simp_all
  have "walk (Some v1) (butlast p) = Inr (Some c')"
    unfolding c(3) by (rule walk_put_at [OF c(1) ic(1)])
  moreover have "write_target c' (last p) rows v = Inr c'"
    by (rule write_target_again [OF c(2) d])
  moreover have "put_at v1 (butlast p) c' = v1"
    unfolding c(3) by (rule put_at_put_at [OF c(1) ic(1)])
  ultimately show ?thesis using False by (simp add: edited_def)
qed

lemma well_formed_edited:
  assumes "well_formed r" "well_formed v" "edited r p rows v = Inr v1"
  shows "well_formed v1"
proof (cases "p = []")
  case True
  with assms well_formed_spread [OF props_values [OF assms(1)] props_values [OF assms(2)]]
  show ?thesis
    by (auto simp: edited_def split: if_splits)
next
  case False
  with assms(3) obtain c c' where c: "walk (Some r) (butlast p) = Inr (Some c)"
      "write_target c (last p) rows v = Inr c'" "v1 = put_at r (butlast p) c'"
    by (auto simp: edited_def split: sum.splits option.splits)
  from well_formed_walk [OF assms(1) c(1)] have "well_formed c" .
  from well_formed_write_target [OF this assms(2) c(2)] have "well_formed c'" .
  with assms(1) show ?thesis unfolding c(3) by (rule well_formed_put_at)
qed

subsection \<open>Digits\<close>

lemma digit_of_digit_char: "d < 10 \<Longrightarrow> digit_of (digit_char d) = Some d"
proof -
  assume "d < 10"
  then have "d \<in> {0, 1, 2, 3, 4, 5, 6, 7, 8, 9}" by auto
  then show ?thesis
    by (auto simp: digit_of_def digit_char_def)
qed

lemma read_digits_append:
  "read_digits acc (xs @ ys) =
     (case read_digits acc xs of None \<Rightarrow> None | Some a \<Rightarrow> read_digits a ys)"
  by (induction xs arbitrary: acc) (auto split: option.splits)

lemma read_show_nat: "read_digits 0 (show_nat n) = Some n"
proof (induction n rule: show_nat.induct)
  case (1 n)
  show ?case
  proof (cases "n < 10")
    case True
    then show ?thesis
      by (subst show_nat.simps) (simp add: digit_of_digit_char)
  next
    case False
    with 1 have "read_digits 0 (show_nat (n div 10)) = Some (n div 10)" by simp
    with False show ?thesis
      by (subst show_nat.simps) (simp add: read_digits_append digit_of_digit_char)
  qed
qed

lemma digits_show_nat: "list_all is_digit (show_nat n)"
proof (induction n rule: show_nat.induct)
  case (1 n)
  show ?case
  proof (cases "n < 10")
    case True
    then show ?thesis
      by (subst show_nat.simps) (simp add: is_digit_def digit_of_digit_char)
  next
    case False
    with 1 have "list_all is_digit (show_nat (n div 10))" by simp
    with False show ?thesis
      by (subst show_nat.simps) (simp add: is_digit_def digit_of_digit_char)
  qed
qed

lemma show_nat_not_Nil: "show_nat n \<noteq> []"
  by (subst show_nat.simps) simp

lemma takeWhile_digits:
  "list_all is_digit ds \<Longrightarrow> ok_rest rest \<Longrightarrow>
   takeWhile is_digit (ds @ rest) = ds \<and> dropWhile is_digit (ds @ rest) = rest"
  by (cases rest) (auto simp: ok_rest_def list_all_iff)

lemma parse_nat_show: "ok_rest rest \<Longrightarrow> parse_nat (show_nat n @ rest) = Some (n, rest)"
  using takeWhile_digits [OF digits_show_nat, of rest n]
  by (simp add: parse_nat_def Let_def read_show_nat show_nat_not_Nil)

lemma digit_not_minus: "is_digit c \<Longrightarrow> c \<noteq> CHR ''-''"
  by (auto simp: is_digit_def digit_of_def)

lemma parse_number_show: "ok_rest rest \<Longrightarrow> parse_number (show_int i @ rest) = Some (i, rest)"
proof -
  assume r: "ok_rest rest"
  show ?thesis
  proof (cases "i < 0")
    case True
    with parse_nat_show [OF r, of "nat (- i)"] show ?thesis
      by (simp add: parse_number_def show_int_def)
  next
    case False
    obtain c cs where c: "show_nat (nat i) = c # cs"
      using show_nat_not_Nil [of "nat i"] by (cases "show_nat (nat i)") auto
    with digits_show_nat [of "nat i"] have "c \<noteq> CHR ''-''"
      by (auto dest: digit_not_minus)
    with False c parse_nat_show [OF r, of "nat i"] show ?thesis
      by (simp add: parse_number_def show_int_def)
  qed
qed

subsection \<open>String literals\<close>

lemma parse_chars_escaped:
  "parse_chars (concat (map escape_char s) @ CHR 0x22 # rest) = Some (s, rest)"
  by (induction s) (auto simp: escape_char_def)

lemma parse_chars_quote:
  "quote s @ rest = CHR 0x22 # r \<Longrightarrow> parse_chars r = Some (s, rest)"
  using parse_chars_escaped [of s rest] by (simp add: quote_def)

subsection \<open>White space and first characters\<close>

lemma skip_ws_Cons: "skip_ws (c # s) = (if is_ws c then skip_ws s else c # s)"
  by (simp add: skip_ws_def)

lemma skip_ws_indent: "skip_ws (indent n @ s) = skip_ws s"
  by (induction n) (auto simp: indent_def skip_ws_def is_ws_def)

lemma skip_ws_newline: "skip_ws (CHR 0x0A # s) = skip_ws s"
  by (simp add: skip_ws_def is_ws_def)

lemma skip_ws_space: "skip_ws (CHR '' '' # s) = skip_ws s"
  by (simp add: skip_ws_def is_ws_def)

lemma parse_value_ws:
  "skip_ws s = skip_ws s' \<Longrightarrow> parse_value f s = parse_value f s'"
  by (cases f) simp_all

lemma parse_elems_ws:
  "skip_ws s = skip_ws s' \<Longrightarrow> parse_elems f s = parse_elems f s'"
  by (cases f) (simp_all add: parse_value_ws [of s s'])

lemma parse_members_ws:
  "skip_ws s = skip_ws s' \<Longrightarrow> parse_members f s = parse_members f s'"
  by (cases f) simp_all

lemma digit_starts_value: "is_digit c \<Longrightarrow> starts_value c"
  by (auto simp: is_digit_def digit_of_def starts_value_def is_ws_def)

lemma show_int_head: "\<exists>c cs. show_int i = c # cs \<and> starts_value c"
proof (cases "i < 0")
  case True
  then show ?thesis by (simp add: show_int_def starts_value_def is_ws_def)
next
  case False
  obtain c cs where c: "show_nat (nat i) = c # cs"
    using show_nat_not_Nil [of "nat i"] by (cases "show_nat (nat i)") auto
  with digits_show_nat [of "nat i"] have "starts_value c"
    by (auto dest: digit_starts_value)
  with False c show ?thesis by (simp add: show_int_def)
qed

lemma stringify_head: "\<exists>c cs. stringify_at n v = c # cs \<and> starts_value c"
proof (cases v)
  case (JNum i)
  with show_int_head [of i] show ?thesis by simp
qed (auto simp: quote_def starts_value_def is_ws_def)

lemma skip_ws_value:
  "starts_value c \<Longrightarrow> skip_ws (c # s) = c # s"
  by (simp add: skip_ws_def starts_value_def)

subsection \<open>Numbers, strings and literals at the head of a text\<close>

lemma ok_rest_simps [simp]:
  "ok_rest []" "ok_rest (CHR '','' # s)" "ok_rest (CHR 0x0A # s)"
  by (simp_all add: ok_rest_def is_digit_def digit_of_def)

lemma parse_value_number:
  assumes "ok_rest rest"
  shows "parse_value (Suc f) (show_int i @ rest) = Some (JNum i, rest)"
proof -
  obtain c cs where c: "show_int i = c # cs" "starts_value c"
    using show_int_head by blast
  have n: "c \<noteq> CHR ''['' \<and> c \<noteq> CHR ''{'' \<and> c \<noteq> CHR 0x22 \<and> c \<noteq> CHR ''n'' \<and>
           c \<noteq> CHR ''t'' \<and> c \<noteq> CHR ''f''"
  proof (cases "i < 0")
    case True
    with c(1) show ?thesis by (auto simp: show_int_def)
  next
    case False
    with c(1) digits_show_nat [of "nat i"] have "is_digit c"
      by (auto simp: show_int_def)
    then show ?thesis by (auto simp: is_digit_def digit_of_def)
  qed
  have "parse_number (c # cs @ rest) = Some (i, rest)"
    using parse_number_show [OF assms, of i] c(1) by simp
  with n c show ?thesis
    by (simp add: skip_ws_value)
qed

lemma parse_value_string:
  "parse_value (Suc f) (quote s @ rest) = Some (JStr s, rest)"
proof -
  have "quote s @ rest = CHR 0x22 # (concat (map escape_char s) @ CHR 0x22 # rest)"
    by (simp add: quote_def)
  then show ?thesis
    by (simp add: skip_ws_def is_ws_def parse_chars_escaped)
qed

lemma parse_value_null: "parse_value (Suc f) (''null'' @ rest) = Some (JNull, rest)"
  by (simp add: skip_ws_def is_ws_def strip_def)

lemma parse_value_true: "parse_value (Suc f) (''true'' @ rest) = Some (JBool True, rest)"
  by (simp add: skip_ws_def is_ws_def strip_def)

lemma parse_value_false: "parse_value (Suc f) (''false'' @ rest) = Some (JBool False, rest)"
  by (simp add: skip_ws_def is_ws_def strip_def)

lemma parse_value_empty_array: "parse_value (Suc f) (''[]'' @ rest) = Some (JArr [], rest)"
  by (simp add: skip_ws_def is_ws_def)

lemma parse_value_empty_object: "parse_value (Suc f) (''{}'' @ rest) = Some (JObj [], rest)"
  by (simp add: skip_ws_def is_ws_def)

subsection \<open>Elements and members\<close>

lemma join_lines_Cons: "\<exists>t. join_lines (l # ls) = l @ t"
  by (cases ls) auto

lemma skip_ws_line:
  "\<exists>c r. skip_ws (CHR 0x0A # indent m @ stringify_at m x @ s) = c # r \<and> starts_value c"
proof -
  obtain c cs where "stringify_at m x = c # cs" "starts_value c"
    using stringify_head by blast
  then show ?thesis
    by (simp add: skip_ws_newline skip_ws_indent skip_ws_value)
qed

lemma skip_ws_close:
  "\<not> is_ws c \<Longrightarrow> skip_ws (CHR 0x0A # indent n @ c # rest) = c # rest"
proof -
  assume c: "\<not> is_ws c"
  have "skip_ws (CHR 0x0A # indent n @ c # rest) = skip_ws (c # rest)"
    by (simp add: skip_ws_newline skip_ws_indent)
  with c show ?thesis by (simp add: skip_ws_Cons)
qed

lemma parse_elems_lines:
  assumes "\<And>x f n rest. x \<in> set xs \<Longrightarrow> well_formed x \<Longrightarrow> size x < f \<Longrightarrow> ok_rest rest \<Longrightarrow>
             parse_value f (stringify_at n x @ rest) = Some (x, rest)"
    and "xs \<noteq> []" and "list_all well_formed xs" and "size_list size xs < f"
  shows "parse_elems f
           (join_lines (map (\<lambda>x. indent m @ stringify_at m x) xs) @
            CHR 0x0A # indent n @ CHR '']'' # rest) = Some (xs, rest)"
  using assms
proof (induction xs arbitrary: f rule: induct_list012)
  case 1
  then show ?case by simp
next
  case (2 x)
  from "2.prems"(4) obtain f' where f: "f = Suc f'" "size x < f'"
    by (cases f) auto
  let ?rest = "CHR 0x0A # indent n @ CHR '']'' # rest"
  have "parse_value f' (indent m @ stringify_at m x @ ?rest) =
        parse_value f' (stringify_at m x @ ?rest)"
    by (rule parse_value_ws) (simp add: skip_ws_indent)
  also have "\<dots> = Some (x, ?rest)"
    using "2.prems" f by (intro "2.prems"(1)) simp_all
  finally show ?case
    using f by (simp add: skip_ws_Cons skip_ws_indent is_ws_def)
next
  case (3 x y zs)
  from "3.prems"(4) obtain f' where f: "f = Suc f'" "size x < f'"
      "size_list size (y # zs) < f'"
    by (cases f) auto
  let ?tail = "join_lines (map (\<lambda>x. indent m @ stringify_at m x) (y # zs)) @
               CHR 0x0A # indent n @ CHR '']'' # rest"
  let ?rest = "CHR '','' # CHR 0x0A # ?tail"
  have "parse_value f' (indent m @ stringify_at m x @ ?rest) =
        parse_value f' (stringify_at m x @ ?rest)"
    by (rule parse_value_ws) (simp add: skip_ws_indent)
  also have "\<dots> = Some (x, ?rest)"
    using "3.prems" f by (intro "3.prems"(1)) simp_all
  finally have v: "parse_value f' (indent m @ stringify_at m x @ ?rest) = Some (x, ?rest)" .
  have "parse_elems f' (CHR 0x0A # ?tail) = parse_elems f' ?tail"
    by (rule parse_elems_ws) (simp add: skip_ws_newline)
  also have "\<dots> = Some (y # zs, rest)"
    using "3.prems" f by (intro "3.IH"(2)) simp_all
  finally have e: "parse_elems f' (CHR 0x0A # ?tail) = Some (y # zs, rest)" .
  from v e f show ?case
    by (simp add: skip_ws_Cons is_ws_def)
qed

lemma parse_members_lines:
  assumes "\<And>k x f n rest. (k, x) \<in> set kvs \<Longrightarrow> well_formed x \<Longrightarrow> size x < f \<Longrightarrow>
             ok_rest rest \<Longrightarrow> parse_value f (stringify_at n x @ rest) = Some (x, rest)"
    and "kvs \<noteq> []" and "list_all (\<lambda>kv. well_formed (snd kv)) kvs"
    and "size_list (\<lambda>kv. Suc (size (snd kv))) kvs < f"
  shows "parse_members f
           (join_lines (map (\<lambda>kv. indent m @ quote (fst kv) @ '': '' @
                                   stringify_at m (snd kv)) kvs) @
            CHR 0x0A # indent n @ CHR ''}'' # rest) = Some (kvs, rest)"
  using assms
proof (induction kvs arbitrary: f rule: induct_list012)
  case 1
  then show ?case by simp
next
  case (2 kv)
  obtain k x where kv: "kv = (k, x)" by (cases kv)
  from "2.prems"(4) kv obtain f' where f: "f = Suc f'" "size x < f'"
    by (cases f) auto
  let ?rest = "CHR 0x0A # indent n @ CHR ''}'' # rest"
  have q: "skip_ws (indent m @ quote k @ '': '' @ stringify_at m x @ ?rest) =
           CHR 0x22 # concat (map escape_char k) @ CHR 0x22 # '': '' @ stringify_at m x @ ?rest"
    by (simp add: skip_ws_indent quote_def skip_ws_Cons is_ws_def)
  have "parse_value f' (CHR '' '' # stringify_at m x @ ?rest) =
        parse_value f' (stringify_at m x @ ?rest)"
    by (rule parse_value_ws) (simp add: skip_ws_space)
  also have "\<dots> = Some (x, ?rest)"
    using "2.prems" f kv by (intro "2.prems"(1) [of k]) simp_all
  finally show ?case
    using f kv q by (simp add: parse_chars_escaped skip_ws_Cons skip_ws_indent is_ws_def)
next
  case (3 kv y zs)
  obtain k x where kv: "kv = (k, x)" by (cases kv)
  from "3.prems"(4) kv obtain f' where f: "f = Suc f'" "size x < f'"
      "size_list (\<lambda>kv. Suc (size (snd kv))) (y # zs) < f'"
    by (cases f) auto
  let ?tail = "join_lines (map (\<lambda>kv. indent m @ quote (fst kv) @ '': '' @
                                   stringify_at m (snd kv)) (y # zs)) @
               CHR 0x0A # indent n @ CHR ''}'' # rest"
  let ?rest = "CHR '','' # CHR 0x0A # ?tail"
  have q: "skip_ws (indent m @ quote k @ '': '' @ stringify_at m x @ ?rest) =
           CHR 0x22 # concat (map escape_char k) @ CHR 0x22 # '': '' @ stringify_at m x @ ?rest"
    by (simp add: skip_ws_indent quote_def skip_ws_Cons is_ws_def)
  have "parse_value f' (CHR '' '' # stringify_at m x @ ?rest) =
        parse_value f' (stringify_at m x @ ?rest)"
    by (rule parse_value_ws) (simp add: skip_ws_space)
  also have "\<dots> = Some (x, ?rest)"
    using "3.prems" f kv by (intro "3.prems"(1) [of k]) simp_all
  finally have v: "parse_value f' (CHR '' '' # stringify_at m x @ ?rest) = Some (x, ?rest)" .
  have "parse_members f' (CHR 0x0A # ?tail) = parse_members f' ?tail"
    by (rule parse_members_ws) (simp add: skip_ws_newline)
  also have "\<dots> = Some (y # zs, rest)"
  proof (rule "3.IH"(2))
    show "parse_value g (stringify_at j w @ r) = Some (w, r)"
      if "(l, w) \<in> set (y # zs)" "well_formed w" "size w < g" "ok_rest r" for l w g j r
      using that by (intro "3.prems"(1) [of l]) simp_all
  qed (use "3.prems" f in simp_all)
  finally have e: "parse_members f' (CHR 0x0A # ?tail) = Some (y # zs, rest)" .
  from v e f kv q show ?case
    by (simp add: parse_chars_escaped skip_ws_Cons is_ws_def)
qed

subsection \<open>The parser reads back what the printer wrote\<close>

lemma parse_value_stringify:
  "well_formed v \<Longrightarrow> size v < f \<Longrightarrow> ok_rest rest \<Longrightarrow>
   parse_value f (stringify_at n v @ rest) = Some (v, rest)"
proof (induction v arbitrary: f n rest)
  case JNull
  then obtain f' where "f = Suc f'" by (cases f) auto
  then show ?case using parse_value_null [of f' rest] by simp
next
  case (JBool b)
  then obtain f' where "f = Suc f'" by (cases f) auto
  then show ?case
    using parse_value_true [of f' rest] parse_value_false [of f' rest] by simp
next
  case (JNum i)
  then obtain f' where "f = Suc f'" by (cases f) auto
  with JNum show ?case using parse_value_number [of rest f' i] by simp
next
  case (JStr s)
  then obtain f' where "f = Suc f'" by (cases f) auto
  then show ?case using parse_value_string [of f' s rest] by simp
next
  case (JArr xs)
  from JArr.prems obtain f' where f: "f = Suc f'" "size_list size xs < f'"
    by (cases f) auto
  show ?case
  proof (cases "xs = []")
    case True
    with f show ?thesis using parse_value_empty_array [of f' rest] by simp
  next
    case False
    let ?lines = "join_lines (map (\<lambda>x. indent (n + 2) @ stringify_at (n + 2) x) xs)"
    let ?tail = "?lines @ CHR 0x0A # indent n @ CHR '']'' # rest"
    from False obtain x ys where xs: "xs = x # ys" by (cases xs) auto
    obtain t where t: "?lines = indent (n + 2) @ stringify_at (n + 2) x @ t"
      using join_lines_Cons [of "indent (n + 2) @ stringify_at (n + 2) x"
          "map (\<lambda>x. indent (n + 2) @ stringify_at (n + 2) x) ys"] xs
      by auto
    obtain c r where c: "skip_ws (CHR 0x0A # ?tail) = c # r" "starts_value c"
      using skip_ws_line [of "n + 2" x "t @ CHR 0x0A # indent n @ CHR '']'' # rest"] t
      by auto
    have "parse_elems f' (CHR 0x0A # ?tail) = parse_elems f' ?tail"
      by (rule parse_elems_ws) (simp add: skip_ws_newline)
    also have "\<dots> = Some (xs, rest)"
    proof (rule parse_elems_lines)
      show "parse_value g (stringify_at j w @ r) = Some (w, r)"
        if "w \<in> set xs" "well_formed w" "size w < g" "ok_rest r" for w g j r
        using that by (intro JArr.IH)
    qed (use JArr.prems f False in simp_all)
    finally have e: "parse_elems f' (CHR 0x0A # ?tail) = Some (xs, rest)" .
    have "stringify_at n (JArr xs) @ rest = CHR ''['' # CHR 0x0A # ?tail"
      using False by simp
    with c e f show ?thesis
      by (simp add: skip_ws_Cons is_ws_def starts_value_def)
  qed
next
  case (JObj kvs)
  from JObj.prems have sz: "size_list (\<lambda>kv. Suc (size (snd kv))) kvs < f"
    by (simp add: size_list_conv_sum_list comp_def case_prod_beta size_prod_simp)
  then obtain f' where f: "f = Suc f'" "size_list (\<lambda>kv. Suc (size (snd kv))) kvs < f'"
    using JObj.prems by (cases f) (auto simp: size_list_conv_sum_list comp_def case_prod_beta size_prod_simp)
  show ?case
  proof (cases "kvs = []")
    case True
    with f show ?thesis using parse_value_empty_object [of f' rest] by simp
  next
    case False
    let ?lines = "join_lines (map (\<lambda>kv. indent (n + 2) @ quote (fst kv) @ '': '' @
                                   stringify_at (n + 2) (snd kv)) kvs)"
    let ?tail = "?lines @ CHR 0x0A # indent n @ CHR ''}'' # rest"
    from False obtain kv ys where xs: "kvs = kv # ys" by (cases kvs) auto
    obtain t where t: "?lines = indent (n + 2) @ quote (fst kv) @ t"
      using join_lines_Cons [of "indent (n + 2) @ quote (fst kv) @ '': '' @
                                   stringify_at (n + 2) (snd kv)"
          "map (\<lambda>kv. indent (n + 2) @ quote (fst kv) @ '': '' @
                                   stringify_at (n + 2) (snd kv)) ys"] xs
      by auto
    have c: "\<exists>r. skip_ws (CHR 0x0A # ?tail) = CHR 0x22 # r"
      unfolding t by (simp add: skip_ws_newline skip_ws_indent quote_def skip_ws_Cons is_ws_def)
    have "parse_members f' (CHR 0x0A # ?tail) = parse_members f' ?tail"
      by (rule parse_members_ws) (simp add: skip_ws_newline)
    also have "\<dots> = Some (kvs, rest)"
    proof (rule parse_members_lines)
      show "parse_value g (stringify_at j w @ r) = Some (w, r)"
        if "(l, w) \<in> set kvs" "well_formed w" "size w < g" "ok_rest r" for l w g j r
        using that by (intro JObj.IH [of "(l, w)"]) simp_all
    qed (use JObj.prems f False in simp_all)
    finally have e: "parse_members f' (CHR 0x0A # ?tail) = Some (kvs, rest)" .
    have "stringify_at n (JObj kvs) @ rest = CHR ''{'' # CHR 0x0A # ?tail"
      using False by simp
    with c e f JObj.prems(1) show ?thesis
      by (auto simp: skip_ws_Cons is_ws_def spread_empty)
  qed
qed

lemma length_join_lines:
  "(\<And>x. x \<in> set xs \<Longrightarrow> Suc (h x) \<le> length (g x)) \<Longrightarrow>
   size_list h xs \<le> length (join_lines (map g xs))"
proof (induction xs rule: induct_list012)
  case 1
  then show ?case by simp
next
  case (2 x)
  from "2.prems" [of x] show ?case by simp
next
  case (3 x y zs)
  have "Suc (h x) \<le> length (g x)" using "3.prems" by simp
  moreover have "size_list h (y # zs) \<le> length (join_lines (map g (y # zs)))"
    using "3.prems" by (intro "3.IH"(2)) simp
  ultimately show ?case by simp
qed

lemma size_le_length: "size v \<le> length (stringify_at n v)"
proof (induction v arbitrary: n)
  case (JArr xs)
  have "size_list size xs \<le>
        length (join_lines (map (\<lambda>x. indent (n + 2) @ stringify_at (n + 2) x) xs))"
  proof (rule length_join_lines)
    fix x assume "x \<in> set xs"
    then have "size x \<le> length (stringify_at (n + 2) x)" by (rule JArr.IH)
    then show "Suc (size x) \<le> length (indent (n + 2) @ stringify_at (n + 2) x)"
      by (simp add: indent_def)
  qed
  then show ?case by simp
next
  case (JObj kvs)
  have "size_list (\<lambda>kv. Suc (size (snd kv))) kvs \<le>
        length (join_lines (map (\<lambda>kv. indent (n + 2) @ quote (fst kv) @ '': '' @
                                   stringify_at (n + 2) (snd kv)) kvs))"
  proof (rule length_join_lines)
    fix kv assume "kv \<in> set kvs"
    then have "size (snd kv) \<le> length (stringify_at (n + 2) (snd kv))"
      by (intro JObj.IH [of kv]) (auto simp: snds.simps intro: snds.intros)
    then show "Suc (Suc (size (snd kv))) \<le> length (indent (n + 2) @ quote (fst kv) @ '': '' @
                                   stringify_at (n + 2) (snd kv))"
      by (simp add: indent_def)
  qed
  then show ?case
    by (simp add: size_list_conv_sum_list comp_def case_prod_beta size_prod_simp)
qed simp_all

lemma json_roundtrip: "well_formed v \<Longrightarrow> json_parse (json_stringify v) = Some v"
  using parse_value_stringify [of v "Suc (length (stringify_at 0 v))" "[]" 0]
    size_le_length [of v 0]
  by (simp add: json_parse_def json_stringify_def skip_ws_def le_imp_less_Suc)

subsection \<open>The parser builds well-formed values\<close>

lemma parse_well_formed:
  "(\<forall>s v r. parse_value f s = Some (v, r) \<longrightarrow> well_formed v) \<and>
   (\<forall>s xs r. parse_elems f s = Some (xs, r) \<longrightarrow> list_all well_formed xs) \<and>
   (\<forall>s kvs r. parse_members f s = Some (kvs, r) \<longrightarrow>
      list_all (\<lambda>kv. well_formed (snd kv)) kvs)"
proof (induction f)
  case 0
  show ?case by simp
next
  case (Suc f)
  from Suc have ihv: "\<And>s v r. parse_value f s = Some (v, r) \<Longrightarrow> well_formed v"
    and ihe: "\<And>s xs r. parse_elems f s = Some (xs, r) \<Longrightarrow> list_all well_formed xs"
    and ihm: "\<And>s kvs r. parse_members f s = Some (kvs, r) \<Longrightarrow>
                list_all (\<lambda>kv. well_formed (snd kv)) kvs"
    by blast+
  have v: "well_formed v" if "parse_value (Suc f) s = Some (v, r)" for s v r
  proof -
    have sp: "well_formed (JObj (spread [] kvs))"
      if "parse_members f s' = Some (kvs, r')" for s' kvs r'
      using ihm [OF that] by (intro well_formed_spread) simp_all
    from that ihe sp show ?thesis
      by (auto split: list.splits if_splits option.splits prod.splits)
  qed
  have e: "list_all well_formed xs" if "parse_elems (Suc f) s = Some (xs, r)" for s xs r
    using that ihv ihe by (auto split: list.splits if_splits option.splits prod.splits)
  have m: "list_all (\<lambda>kv. well_formed (snd kv)) kvs"
    if "parse_members (Suc f) s = Some (kvs, r)" for s kvs r
    using that ihv ihm by (auto split: list.splits if_splits option.splits prod.splits)
  from v e m show ?case by blast
qed

lemma json_parse_well_formed: "json_parse s = Some v \<Longrightarrow> well_formed v"
proof -
  assume p: "json_parse s = Some v"
  have "\<And>s' v r. parse_value (Suc (length s)) s' = Some (v, r) \<Longrightarrow> well_formed v"
    using parse_well_formed [of "Suc (length s)"] by blast
  with p show ?thesis
    by (auto simp: json_parse_def simp del: parse_value.simps
        split: option.splits prod.splits if_splits)
qed

lemma json_parse_empty: "json_parse [] = None"
  by (simp add: json_parse_def skip_ws_def)

lemma json_codec_browser: "json_codec browser"
  by (auto simp: json_codec_def browser_def json_roundtrip json_parse_empty
      dest: json_parse_well_formed)

lemma json_codec_blocked: "json_codec blocked"
  by (auto simp: json_codec_def blocked_def json_roundtrip json_parse_empty
      dest: json_parse_well_formed)

section \<open>Outcomes of a click\<close>

lemmas host_defs =
  browser_def blocked_def json_parse_def json_stringify_def skip_ws_def is_ws_def strip_def
  parse_number_def parse_nat_def is_digit_def digit_of_def show_nat.simps digit_char_def
  quote_def escape_char_def indent_def show_int_def

lemmas handler_defs =
  onClick_def save_edit_def new_value_def traverseToParent_def write_target_def spread_def
  isEditingObjectFields_def plain_object_def emitJsonUpdate_def saved_def Let_def

lemma saved_inject: "saved env a = saved env b \<longleftrightarrow> a = b"
  by (auto simp: saved_def)

lemma saved_not_error: "saved env doc \<noteq> [SetError e]"
  by (simp add: saved_def emitJsonUpdate_def)

lemma run_saved:
  "run (saved env doc) st =
     st\<lparr>store_json := doc,
        events := events st @ (if CustomEvent_ok env then [doc] else []),
        ui_isEditing := False, ui_editedText := [], ui_error := None, ui_closed := True\<rparr>"
  by (simp add: run_def saved_def emitJsonUpdate_def)

lemma run_error: "run [SetError e] st = st\<lparr>ui_error := e\<rparr>"
  by (simp add: run_def)

lemma onClick_cases:
  "(\<exists>doc. onClick env currentJson nodeData editedText = saved env doc) \<or>
   (\<exists>e. onClick env currentJson nodeData editedText = [SetError (Some e)])"
  by (auto simp: onClick_edited split: sum.splits)

lemma parse_document_well_formed:
  "json_codec env \<Longrightarrow> parse_document env currentJson = Inr r \<Longrightarrow> well_formed r"
  by (auto simp: json_codec_def parse_document_def split: if_splits option.splits)

lemma new_value_well_formed:
  "json_codec env \<Longrightarrow> new_value env rows editedText = Inr v \<Longrightarrow> well_formed v"
  by (auto simp: json_codec_def new_value_def split: if_splits option.splits)

lemma walk_snoc:
  "walk c (p @ [k]) = (case walk c p of Inl e \<Rightarrow> Inl e | Inr c' \<Rightarrow> get_prop c' k)"
  by (induction c p rule: walk.induct) (auto split: sum.splits)

lemma write_target_error: "write_target c k rows v = Inl e \<Longrightarrow> e = TypeError"
  by (auto simp: write_target_eq split: sum.splits if_splits
      dest: get_prop_error set_prop_error)

lemma edited_error:
  "edited r p rows v = Inl e \<Longrightarrow> e = UnresolvedPath \<or> e = TypeError"
  by (auto simp: edited_def split: if_splits sum.splits option.splits
      dest: walk_error write_target_error)

lemma saved_text_valid:
  assumes c: "json_codec env"
    and s: "onClick env currentJson nodeData editedText = saved env doc"
  shows "\<exists>v. well_formed v \<and> JSON_parse env doc = Some v \<and> JSON_stringify env v = doc \<and>
             edited v (path_of nodeData) (rows_of nodeData)
               (case new_value env (rows_of nodeData) editedText of Inr nv \<Rightarrow> nv) = Inr v"
proof -
  from s obtain r nv v where
    r: "parse_document env currentJson = Inr r" and
    nv: "new_value env (rows_of nodeData) editedText = Inr nv" and
    v: "edited r (path_of nodeData) (rows_of nodeData) nv = Inr v" and
    d: "doc = JSON_stringify env v"
    by (auto simp: onClick_edited saved_inject saved_not_error [symmetric]
        split: sum.splits)
  have wr: "well_formed r" by (rule parse_document_well_formed [OF c r])
  have wn: "well_formed nv" by (rule new_value_well_formed [OF c nv])
  have wv: "well_formed v" by (rule well_formed_edited [OF wr wn v])
  with c d have "JSON_parse env doc = Some v" by (simp add: json_codec_def)
  moreover have "edited v (path_of nodeData) (rows_of nodeData) nv = Inr v"
    by (rule edited_again [OF v props_well_formed [OF wn]])
  ultimately show ?thesis using wv d nv by auto
qed

lemma react_SetJson:
  "SetJson doc \<in> set (react env nodeData st a) \<Longrightarrow>
   a = ClickSave \<and> onClick env (store_json st) nodeData (ui_editedText st) = saved env doc"
proof (cases a)
  case ClickSave
  assume "SetJson doc \<in> set (react env nodeData st a)"
  with ClickSave onClick_cases [of env "store_json st" nodeData "ui_editedText st"]
  show ?thesis
    by (auto simp: saved_def emitJsonUpdate_def split: if_splits)
qed auto

section \<open>The claims\<close>

text \<open>
  C1 (rename). The specification expects that the document \<^verbatim>\<open>{"a":{"old":5}}\<close>, edited
  at the path \<^verbatim>\<open>["a","old"]\<close> of a node with the single keyed row \<^verbatim>\<open>old\<close>, with the
  input \<^verbatim>\<open>{"new":5}\<close>, becomes \<^verbatim>\<open>{"a":{"new":5}}\<close>. The handler reads
  \<^verbatim>\<open>cursor["old"]\<close>, which is the number 5 and no object, so the rename branch falls back
  to \<^verbatim>\<open>cursor[lastKey] = newValue\<close>: the written document is
  \<^verbatim>\<open>{"a":{"old":{"new":5}}}\<close>, not the text of \<^verbatim>\<open>{"a":{"new":5}}\<close>. At the path
  \<^verbatim>\<open>["a"]\<close> of the object itself the merge branch comes first and keeps the old key:
  \<^verbatim>\<open>{"a":{"old":5,"new":5}}\<close>. (By \<open>write_target_eq\<close> the rename branch never deletes a
  key: it either throws or replaces.)
\<close>

theorem rename_example_nests:
  \<open>onClick browser ''{"a":{"old":5}}''
     (Some \<lparr>nd_text = [\<lparr>row_key = Some ''old'', row_value = JNum 5, row_type = ''number''\<rparr>],
            nd_path = [Key ''a'', Key ''old'']\<rparr>)
     ''{"new":5}''
   = saved browser ''{\<newline>  "a": {\<newline>    "old": {\<newline>      "new": 5\<newline>    }\<newline>  }\<newline>}'' \<and>
   json_stringify (JObj [(''a'', JObj [(''new'', JNum 5)])])
   \<noteq> ''{\<newline>  "a": {\<newline>    "old": {\<newline>      "new": 5\<newline>    }\<newline>  }\<newline>}'' \<and>
   onClick browser ''{"a":{"old":5}}''
     (Some \<lparr>nd_text = [\<lparr>row_key = Some ''old'', row_value = JNum 5, row_type = ''number''\<rparr>],
            nd_path = [Key ''a'']\<rparr>)
     ''{"new":5}''
   = saved browser ''{\<newline>  "a": {\<newline>    "old": 5,\<newline>    "new": 5\<newline>  }\<newline>}''\<close>
  by (simp add: host_defs handler_defs)

text \<open>
  C2 (atomic save). For every host, selected node and state, a click on Save has one of
  two outcomes. Either the store receives the new document and \<^verbatim>\<open>emitJsonUpdate\<close> is
  called with that same document, which dispatches the event unless the host blocks
  \<^verbatim>\<open>CustomEvent\<close>, and the editor is closed without error; or nothing but the error of
  the modal changes: the store and the dispatched events are as before.
\<close>

theorem save_atomic:
  "(\<exists>doc. onClick env (store_json st) nodeData (ui_editedText st) = saved env doc \<and>
          click_save env nodeData st =
            st\<lparr>store_json := doc,
               events := events st @ (if CustomEvent_ok env then [doc] else []),
               ui_isEditing := False, ui_editedText := [], ui_error := None,
               ui_closed := True\<rparr>) \<or>
   (\<exists>e. onClick env (store_json st) nodeData (ui_editedText st) = [SetError (Some e)] \<and>
        click_save env nodeData st = st\<lparr>ui_error := Some e\<rparr>)"
  using onClick_cases [of env "store_json st" nodeData "ui_editedText st"]
  by (auto simp: click_save_def run_saved run_error)

text \<open>
  The claim as it is written promises the broadcast whenever the store is updated. In a
  host that blocks \<^verbatim>\<open>CustomEvent\<close> the handler updates the store, dispatches nothing
  and reports no error.
\<close>

theorem blocked_host_counterexample:
  \<open>click_save blocked
     (Some \<lparr>nd_text = [\<lparr>row_key = None, row_value = JNum 1, row_type = ''number''\<rparr>],
            nd_path = [Key ''a'']\<rparr>)
     \<lparr>store_json = ''{"a":1}'', events = [], ui_isEditing = True, ui_editedText = ''2'',
      ui_error = None, ui_closed = False\<rparr>
   = \<lparr>store_json = ''{\<newline>  "a": 2\<newline>}'', events = [], ui_isEditing = False, ui_editedText = [],
      ui_error = None, ui_closed = True\<rparr>\<close>
  by (simp add: click_save_def run_def host_defs handler_defs)

text \<open>An instance of \<open>save_atomic\<close> in the browser: the first outcome, with the event.\<close>

theorem save_atomic_witness:
  \<open>onClick browser ''{"a":1}''
     (Some \<lparr>nd_text = [\<lparr>row_key = None, row_value = JNum 1, row_type = ''number''\<rparr>],
            nd_path = [Key ''a'']\<rparr>) ''2'' = saved browser ''{\<newline>  "a": 2\<newline>}'' \<and>
   click_save browser
     (Some \<lparr>nd_text = [\<lparr>row_key = None, row_value = JNum 1, row_type = ''number''\<rparr>],
            nd_path = [Key ''a'']\<rparr>)
     \<lparr>store_json = ''{"a":1}'', events = [], ui_isEditing = True, ui_editedText = ''2'',
      ui_error = None, ui_closed = False\<rparr>
   = \<lparr>store_json = ''{\<newline>  "a": 2\<newline>}'', events = [''{\<newline>  "a": 2\<newline>}''],
      ui_isEditing = False, ui_editedText = [], ui_error = None, ui_closed = True\<rparr>\<close>
proof -
  let ?nd = "Some \<lparr>nd_text = [\<lparr>row_key = None, row_value = JNum 1, row_type = ''number''\<rparr>],
                     nd_path = [Key ''a'']\<rparr>"
  let ?st = \<open>\<lparr>store_json = ''{"a":1}'', events = [], ui_isEditing = True, ui_editedText = ''2'',
      ui_error = None, ui_closed = False\<rparr>\<close>
  have s: \<open>onClick browser ''{"a":1}'' ?nd ''2'' = saved browser ''{\<newline>  "a": 2\<newline>}''\<close>
    by (simp add: host_defs handler_defs)
  from save_atomic [of browser ?st ?nd] s show ?thesis
    by (auto simp: saved_inject saved_not_error browser_def)
qed

text \<open>
  C3 (the store holds valid JSON). In a host whose \<^verbatim>\<open>JSON.parse\<close> reads back what
  \<^verbatim>\<open>JSON.stringify\<close> writes, whenever an action of the modal writes a text to the store,
  the action is the click on Save, the text parses, and serialising the parsed value
  gives the same text again.
\<close>

theorem store_holds_valid_json:
  assumes "json_codec env" and "SetJson doc \<in> set (react env nodeData st a)"
  shows "a = ClickSave \<and> (\<exists>v. JSON_parse env doc = Some v \<and> JSON_stringify env v = doc)"
  using react_SetJson [OF assms(2)] saved_text_valid [OF assms(1)] by blast

text \<open>An instance in the browser, whose parser and printer satisfy \<open>json_codec\<close>.\<close>

theorem store_holds_valid_json_witness:
  \<open>json_codec browser \<and>
   SetJson ''{\<newline>  "a": 2\<newline>}'' \<in> set (react browser
     (Some \<lparr>nd_text = [\<lparr>row_key = None, row_value = JNum 1, row_type = ''number''\<rparr>],
            nd_path = [Key ''a'']\<rparr>)
     \<lparr>store_json = ''{"a":1}'', events = [], ui_isEditing = True, ui_editedText = ''2'',
      ui_error = None, ui_closed = False\<rparr> ClickSave) \<and>
   (\<exists>v. JSON_parse browser ''{\<newline>  "a": 2\<newline>}'' = Some v \<and>
        JSON_stringify browser v = ''{\<newline>  "a": 2\<newline>}'')\<close>
proof -
  let ?nd = "Some \<lparr>nd_text = [\<lparr>row_key = None, row_value = JNum 1, row_type = ''number''\<rparr>],
                     nd_path = [Key ''a'']\<rparr>"
  let ?st = \<open>\<lparr>store_json = ''{"a":1}'', events = [], ui_isEditing = True, ui_editedText = ''2'',
      ui_error = None, ui_closed = False\<rparr>\<close>
  have m: \<open>SetJson ''{\<newline>  "a": 2\<newline>}'' \<in> set (react browser ?nd ?st ClickSave)\<close>
    by (simp add: host_defs handler_defs)
  from store_holds_valid_json [OF json_codec_browser m] json_codec_browser m
  show ?thesis by blast
qed

text \<open>
  C4 (a path that cannot be walked fails closed). When the stored document parses, the
  path is not empty, all its segments have ordinary names (none of \<open>builtin_names\<close>),
  and the walk over all but its last segment does not end in an object or an array, the
  click ends in \<^verbatim>\<open>setError\<close> and changes nothing else. When the input is accepted, the
  error is \<open>UnresolvedPath\<close> if the walk ends in \<^verbatim>\<open>undefined\<close>, and the \<^verbatim>\<open>TypeError\<close>
  of the engine otherwise (an earlier segment is missing, or the parent is \<^verbatim>\<open>null\<close> or a
  primitive).
\<close>

theorem bad_path_fails_closed:
  assumes "parse_document env currentJson = Inr root"
    and "path_of nodeData \<noteq> []"
    and "\<not> (\<exists>c. walk (Some root) (butlast (path_of nodeData)) = Inr (Some c) \<and> is_container c)"
    and "list_all ordinary (path_of nodeData)"
  shows "\<exists>e. onClick env currentJson nodeData editedText = [SetError (Some e)] \<and>
             run (onClick env currentJson nodeData editedText) st = st\<lparr>ui_error := Some e\<rparr> \<and>
             (\<forall>nv. new_value env (rows_of nodeData) editedText = Inr nv \<longrightarrow>
                e = (if walk (Some root) (butlast (path_of nodeData)) = Inr None
                     then UnresolvedPath else TypeError))"
proof -
  have e: "edited root (path_of nodeData) (rows_of nodeData) nv =
           Inl (if walk (Some root) (butlast (path_of nodeData)) = Inr None
                then UnresolvedPath else TypeError)" for nv
  proof (cases "walk (Some root) (butlast (path_of nodeData))")
    case (Inl e)
    with assms(2) walk_error [OF Inl] show ?thesis by (simp add: edited_def)
  next
    case (Inr t)
    show ?thesis
    proof (cases t)
      case None
      with Inr assms(2) show ?thesis by (simp add: edited_def)
    next
      case (Some c)
      with Inr assms(3) have nc: "\<not> is_container c" by simp
      have "write_target c (last (path_of nodeData)) (rows_of nodeData) nv = Inl TypeError"
      proof (cases "write_target c (last (path_of nodeData)) (rows_of nodeData) nv")
        case (Inl e)
        with write_target_error [OF Inl] show ?thesis by simp
      next
        case (Inr c')
        with write_target_container [OF Inr] nc show ?thesis by simp
      qed
      with Inr Some assms(2) show ?thesis by (simp add: edited_def)
    qed
  qed
  show ?thesis
  proof (cases "new_value env (rows_of nodeData) editedText")
    case (Inl x)
    with assms(1) show ?thesis by (simp add: onClick_edited run_error)
  next
    case (Inr nv)
    with assms(1) e [of nv] show ?thesis by (simp add: onClick_edited run_error)
  qed
qed

text \<open>
  The claim as it is written promises the error \<open>UnresolvedPath\<close> also for an
  intermediate value that is no container. For \<^verbatim>\<open>{"a":1}\<close> and the path
  \<^verbatim>\<open>["a","c"]\<close> the handler reaches the number 1, and the write on it throws a
  \<^verbatim>\<open>TypeError\<close>.
\<close>

theorem unresolved_kind_counterexample:
  \<open>onClick browser ''{"a":1}'' (Some \<lparr>nd_text = [], nd_path = [Key ''a'', Key ''c'']\<rparr>) ''2''
     = [SetError (Some TypeError)] \<and>
   TypeError \<noteq> UnresolvedPath\<close>
  by (simp add: host_defs handler_defs UnresolvedPath_def)

text \<open>The example of the specification: \<^verbatim>\<open>{"a":1}\<close> with the path \<^verbatim>\<open>["b","c"]\<close>.\<close>

theorem bad_path_fails_closed_witness:
  \<open>parse_document browser ''{"a":1}'' = Inr (JObj [(''a'', JNum 1)]) \<and>
   path_of (Some \<lparr>nd_text = [], nd_path = [Key ''b'', Key ''c'']\<rparr>) \<noteq> [] \<and>
   list_all ordinary (path_of (Some \<lparr>nd_text = [], nd_path = [Key ''b'', Key ''c'']\<rparr>)) \<and>
   walk (Some (JObj [(''a'', JNum 1)]))
     (butlast (path_of (Some \<lparr>nd_text = [], nd_path = [Key ''b'', Key ''c'']\<rparr>))) = Inr None \<and>
   onClick browser ''{"a":1}'' (Some \<lparr>nd_text = [], nd_path = [Key ''b'', Key ''c'']\<rparr>) ''2''
     = [SetError (Some UnresolvedPath)]\<close>
proof -
  let ?nd = "Some \<lparr>nd_text = [], nd_path = [Key ''b'', Key ''c'']\<rparr>"
  have p: \<open>parse_document browser ''{"a":1}'' = Inr (JObj [(''a'', JNum 1)])\<close>
    by (simp add: parse_document_def host_defs handler_defs)
  have q: "path_of ?nd \<noteq> []" by (simp add: path_of_def)
  have w: "walk (Some (JObj [(''a'', JNum 1)])) (butlast (path_of ?nd)) = Inr None"
    by (simp add: path_of_def)
  then have n: "\<not> (\<exists>c. walk (Some (JObj [(''a'', JNum 1)])) (butlast (path_of ?nd)) = Inr (Some c) \<and>
                      is_container c)"
    by simp
  have v: "new_value browser (rows_of ?nd) ''2'' = Inr (JNum 2)"
    by (simp add: rows_of_def host_defs handler_defs)
  have o: "list_all ordinary (path_of ?nd)"
    by (simp add: path_of_def ordinary_def builtin_names_def)
  from bad_path_fails_closed [OF p q n o, of "''2''"] v w p q o show ?thesis
    by auto
qed

text \<open>
  C5 (root merge). When the path is empty, the node has a keyed row, and both the stored
  document and the input are objects, the written document is the object spread of the
  two: its properties are those of the root overwritten by those of the input, so every
  untouched key of the root is kept.
\<close>

theorem root_merge_keeps_keys:
  assumes "parse_document env currentJson = Inr (JObj r)"
    and "JSON_parse env editedText = Some (JObj n)"
    and "path_of nodeData = []"
    and "isEditingObjectFields (rows_of nodeData)"
    and "distinct (map fst r)" and "distinct (map fst n)"
  shows "onClick env currentJson nodeData editedText =
           saved env (JSON_stringify env (JObj (spread r n))) \<and>
         map_of (spread r n) = map_of r ++ map_of n"
  using assms
  by (simp add: onClick_edited new_value_def edited_def plain_object_iff map_of_spread)

text \<open>
  The example of the specification: \<^verbatim>\<open>{"a":1,"b":2}\<close> with the input \<^verbatim>\<open>{"b":3}\<close> gives
  \<^verbatim>\<open>{"a":1,"b":3}\<close>.
\<close>

theorem root_merge_keeps_keys_witness:
  \<open>parse_document browser ''{"a":1,"b":2}'' = Inr (JObj [(''a'', JNum 1), (''b'', JNum 2)]) \<and>
   JSON_parse browser ''{"b":3}'' = Some (JObj [(''b'', JNum 3)]) \<and>
   isEditingObjectFields
     [\<lparr>row_key = Some ''a'', row_value = JNum 1, row_type = ''number''\<rparr>,
      \<lparr>row_key = Some ''b'', row_value = JNum 2, row_type = ''number''\<rparr>] \<and>
   onClick browser ''{"a":1,"b":2}''
     (Some \<lparr>nd_text = [\<lparr>row_key = Some ''a'', row_value = JNum 1, row_type = ''number''\<rparr>,
                       \<lparr>row_key = Some ''b'', row_value = JNum 2, row_type = ''number''\<rparr>],
            nd_path = []\<rparr>) ''{"b":3}''
     = saved browser ''{\<newline>  "a": 1,\<newline>  "b": 3\<newline>}''\<close>
proof -
  let ?rows = "[\<lparr>row_key = Some ''a'', row_value = JNum 1, row_type = ''number''\<rparr>,
                \<lparr>row_key = Some ''b'', row_value = JNum 2, row_type = ''number''\<rparr>]"
  let ?nd = "Some \<lparr>nd_text = ?rows, nd_path = []\<rparr>"
  have p: \<open>parse_document browser ''{"a":1,"b":2}'' = Inr (JObj [(''a'', JNum 1), (''b'', JNum 2)])\<close>
    by (simp add: parse_document_def host_defs handler_defs)
  have i: \<open>JSON_parse browser ''{"b":3}'' = Some (JObj [(''b'', JNum 3)])\<close>
    by (simp add: host_defs handler_defs)
  have e: "isEditingObjectFields (rows_of ?nd)"
    by (simp add: rows_of_def isEditingObjectFields_def)
  have s: \<open>JSON_stringify browser (JObj (spread [(''a'', JNum 1), (''b'', JNum 2)] [(''b'', JNum 3)]))
           = ''{\<newline>  "a": 1,\<newline>  "b": 3\<newline>}''\<close>
    by (simp add: host_defs spread_def)
  from root_merge_keeps_keys [OF p i _ e, of ] p i e s show ?thesis
    by (simp add: path_of_def rows_of_def)
qed

text \<open>
  C6 (input that does not parse). When the stored document parses and the input does not:
  for a node of exactly one row without key the handler goes on with the text itself as a
  string value; for every other node the click ends in \<^verbatim>\<open>setError\<close> with
  \<open>InvalidJsonInput\<close> and nothing is written.
\<close>

theorem unparseable_input:
  assumes "JSON_parse env editedText = None"
    and "parse_document env currentJson = Inr root"
  shows "if length (rows_of nodeData) = 1 \<and> \<not> key_truthy (row_key (rows_of nodeData ! 0))
         then new_value env (rows_of nodeData) editedText = Inr (JStr editedText) \<and>
              onClick env currentJson nodeData editedText =
                (case edited root (path_of nodeData) (rows_of nodeData) (JStr editedText) of
                   Inl e \<Rightarrow> [SetError (Some e)]
                 | Inr v \<Rightarrow> saved env (JSON_stringify env v))
         else onClick env currentJson nodeData editedText = [SetError (Some InvalidJsonInput)]"
  using assms by (simp add: onClick_edited new_value_def)

text \<open>
  The example of the specification: \<^verbatim>\<open>{"a":"hello"}\<close>, path \<^verbatim>\<open>["a"]\<close>, input
  \<^verbatim>\<open>not json\<close> gives \<^verbatim>\<open>{"a":"not json"}\<close>; with a keyed row the same input is refused.
\<close>

theorem unparseable_input_witness:
  \<open>JSON_parse browser ''not json'' = None \<and>
   parse_document browser ''{"a":"hello"}'' = Inr (JObj [(''a'', JStr ''hello'')]) \<and>
   onClick browser ''{"a":"hello"}''
     (Some \<lparr>nd_text = [\<lparr>row_key = None, row_value = JStr ''hello'', row_type = ''string''\<rparr>],
            nd_path = [Key ''a'']\<rparr>) ''not json''
     = saved browser ''{\<newline>  "a": "not json"\<newline>}'' \<and>
   onClick browser ''{"a":"hello"}''
     (Some \<lparr>nd_text = [\<lparr>row_key = Some ''a'', row_value = JStr ''hello'', row_type = ''string''\<rparr>],
            nd_path = []\<rparr>) ''not json''
     = [SetError (Some InvalidJsonInput)]\<close>
proof -
  let ?leaf = "Some \<lparr>nd_text = [\<lparr>row_key = None, row_value = JStr ''hello'', row_type = ''string''\<rparr>],
                       nd_path = [Key ''a'']\<rparr>"
  let ?obj = "Some \<lparr>nd_text = [\<lparr>row_key = Some ''a'', row_value = JStr ''hello'', row_type = ''string''\<rparr>],
                      nd_path = []\<rparr>"
  have i: "JSON_parse browser ''not json'' = None"
    by (simp add: host_defs)
  have p: \<open>parse_document browser ''{"a":"hello"}'' = Inr (JObj [(''a'', JStr ''hello'')])\<close>
    by (simp add: parse_document_def host_defs handler_defs)
  have s: \<open>JSON_stringify browser (JObj [(''a'', JStr ''not json'')]) = ''{\<newline>  "a": "not json"\<newline>}''\<close>
    by (simp add: host_defs)
  from unparseable_input [OF i p, of ?leaf] unparseable_input [OF i p, of ?obj] i p s
  show ?thesis
    by (simp add: rows_of_def path_of_def edited_def write_target_def
        isEditingObjectFields_def plain_object_def)
qed

text \<open>
  C7 (the listener skips an equal value). The listener updates \<^verbatim>\<open>editorValue\<close> only to
  the incoming text and only when it differs from the current one, and sets the Monaco
  editor only to the incoming text and only when its content differs. When the incoming
  text equals what the page already holds, nothing is updated.
\<close>

theorem listener_skips_equal_value:
  "(SetEditorValue s \<in> set (handler ed detail) \<longrightarrow> s = detail \<and> editorValue ed \<noteq> detail) \<and>
   (MonacoSetValue s \<in> set (handler ed detail) \<longrightarrow> s = detail \<and> monacoRef ed \<noteq> Some detail) \<and>
   (editorValue ed = detail \<longrightarrow> SetEditorValue s \<notin> set (handler ed detail)) \<and>
   (monacoRef ed = Some detail \<longrightarrow> MonacoSetValue s \<notin> set (handler ed detail)) \<and>
   (editorValue ed = detail \<and> (monacoRef ed = None \<or> monacoRef ed = Some detail) \<longrightarrow>
      handler ed detail = [] \<and> deliver detail ed = ed)"
  by (auto simp: handler_def setEditorValue_def updater_def deliver_def Let_def
      split: option.splits if_splits)

text \<open>An equal text causes no update; a different one does.\<close>

theorem listener_skips_equal_value_witness:
  "handler \<lparr>editorValue = ''{}'', monacoRef = Some ''{}''\<rparr> ''{}'' = [] \<and>
   deliver ''{}'' \<lparr>editorValue = ''{}'', monacoRef = Some ''{}''\<rparr> =
     \<lparr>editorValue = ''{}'', monacoRef = Some ''{}''\<rparr> \<and>
   handler \<lparr>editorValue = ''{}'', monacoRef = None\<rparr> ''[]'' = [SetEditorValue ''[]'']"
  using listener_skips_equal_value [of "''{}''" "\<lparr>editorValue = ''{}'', monacoRef = Some ''{}''\<rparr>" "''{}''"]
  by (simp add: handler_def setEditorValue_def updater_def)

text \<open>
  C8 (store before broadcast). In every run of the handler that reaches a write, whatever
  the branch, the effects are \<^verbatim>\<open>setJson(doc)\<close> followed by the dispatch of the same
  \<open>doc\<close> (or by nothing where \<^verbatim>\<open>CustomEvent\<close> is blocked).
\<close>

theorem store_before_broadcast:
  assumes "save_edit env currentJson nodeData editedText = Inr effects"
  shows "\<exists>doc. effects =
           (if CustomEvent_ok env then [SetJson doc, DispatchJsonUpdate doc] else [SetJson doc])"
  using assms
  by (auto simp: save_edit_edited emitJsonUpdate_def split: sum.splits)

text \<open>An instance in the browser.\<close>

theorem store_before_broadcast_witness:
  \<open>save_edit browser ''{"a":1}''
     (Some \<lparr>nd_text = [\<lparr>row_key = None, row_value = JNum 1, row_type = ''number''\<rparr>],
            nd_path = [Key ''a'']\<rparr>) ''2''
     = Inr [SetJson ''{\<newline>  "a": 2\<newline>}'', DispatchJsonUpdate ''{\<newline>  "a": 2\<newline>}'']\<close>
proof -
  let ?nd = "Some \<lparr>nd_text = [\<lparr>row_key = None, row_value = JNum 1, row_type = ''number''\<rparr>],
                     nd_path = [Key ''a'']\<rparr>"
  have s: \<open>save_edit browser ''{"a":1}'' ?nd ''2''
     = Inr [SetJson ''{\<newline>  "a": 2\<newline>}'', DispatchJsonUpdate ''{\<newline>  "a": 2\<newline>}'']\<close>
    by (simp add: host_defs handler_defs)
  from store_before_broadcast [OF s] s show ?thesis by simp
qed

text \<open>
  C9 (idempotence). In a host whose \<^verbatim>\<open>JSON.parse\<close> reads back what \<^verbatim>\<open>JSON.stringify\<close>
  writes: when a save of a node with some input succeeds and writes \<open>doc1\<close>, the same
  save on \<open>doc1\<close> succeeds and writes \<open>doc1\<close> again.
\<close>

theorem save_idempotent:
  assumes c: "json_codec env"
    and s: "onClick env doc0 nodeData editedText = saved env doc1"
  shows "onClick env doc1 nodeData editedText = saved env doc1"
proof -
  from s obtain nv where nv: "new_value env (rows_of nodeData) editedText = Inr nv"
    by (auto simp: onClick_edited saved_not_error [symmetric] split: sum.splits)
  from saved_text_valid [OF c s] nv obtain v where
    v: "JSON_parse env doc1 = Some v" "JSON_stringify env v = doc1"
      "edited v (path_of nodeData) (rows_of nodeData) nv = Inr v"
    by auto
  from c v(1) have "doc1 \<noteq> []" by (auto simp: json_codec_def)
  with v(1) have "parse_document env doc1 = Inr v" by (simp add: parse_document_def)
  with nv v show ?thesis by (simp add: onClick_edited)
qed

text \<open>An instance in the browser: a merge below the root, saved twice.\<close>

theorem save_idempotent_witness:
  \<open>json_codec browser \<and>
   onClick browser ''{"a":{"x":1}}''
     (Some \<lparr>nd_text = [\<lparr>row_key = Some ''x'', row_value = JNum 1, row_type = ''number''\<rparr>],
            nd_path = [Key ''a'']\<rparr>) ''{"y":2}''
     = saved browser ''{\<newline>  "a": {\<newline>    "x": 1,\<newline>    "y": 2\<newline>  }\<newline>}'' \<and>
   onClick browser ''{\<newline>  "a": {\<newline>    "x": 1,\<newline>    "y": 2\<newline>  }\<newline>}''
     (Some \<lparr>nd_text = [\<lparr>row_key = Some ''x'', row_value = JNum 1, row_type = ''number''\<rparr>],
            nd_path = [Key ''a'']\<rparr>) ''{"y":2}''
     = saved browser ''{\<newline>  "a": {\<newline>    "x": 1,\<newline>    "y": 2\<newline>  }\<newline>}''\<close>
proof -
  let ?nd = "Some \<lparr>nd_text = [\<lparr>row_key = Some ''x'', row_value = JNum 1, row_type = ''number''\<rparr>],
                     nd_path = [Key ''a'']\<rparr>"
  have s: \<open>onClick browser ''{"a":{"x":1}}'' ?nd ''{"y":2}''
     = saved browser ''{\<newline>  "a": {\<newline>    "x": 1,\<newline>    "y": 2\<newline>  }\<newline>}''\<close>
    by (simp add: host_defs handler_defs)
  from save_idempotent [OF json_codec_browser s] json_codec_browser s show ?thesis
    by simp
qed

text \<open>
  C10 (a missing final key is inserted). When the stored document parses, the input is
  accepted, all segments of the path have ordinary names (none of \<open>builtin_names\<close>), the
  walk over all but the last segment ends in an object, or in an array while the last
  segment is an array index, and the last segment is absent there, the save succeeds.
  In the written document the new value is found at the path, and the parent has kept
  what it had: an object has its former properties and the new one, an array is its
  former elements, lengthened up to the index.
\<close>

theorem missing_final_key_inserts:
  assumes "parse_document env currentJson = Inr root"
    and "new_value env (rows_of nodeData) editedText = Inr nv"
    and "path_of nodeData \<noteq> []"
    and "walk (Some root) (butlast (path_of nodeData)) = Inr (Some c)"
    and "get_prop (Some c) (last (path_of nodeData)) = Inr None"
    and "is_container c"
    and "isArray (Some c) \<longrightarrow> seg_index (last (path_of nodeData)) \<noteq> None"
    and "list_all ordinary (path_of nodeData)"
  shows "\<exists>v c'. onClick env currentJson nodeData editedText =
                   saved env (JSON_stringify env v) \<and>
                walk (Some v) (path_of nodeData) = Inr (Some nv) \<and>
                walk (Some v) (butlast (path_of nodeData)) = Inr (Some c') \<and>
                (\<forall>kvs. c = JObj kvs \<longrightarrow>
                   (\<exists>kvs'. c' = JObj kvs' \<and>
                      map_of kvs' = (map_of kvs)(seg_name (last (path_of nodeData)) \<mapsto> nv))) \<and>
                (\<forall>xs i. c = JArr xs \<longrightarrow> seg_index (last (path_of nodeData)) = Some i \<longrightarrow>
                   c' = JArr (xs @ replicate (i - length xs) JNull @ [nv]))"
proof -
  let ?p = "path_of nodeData"
  let ?k = "last ?p"
  have w: "write_target c ?k (rows_of nodeData) nv = set_prop c ?k nv"
    using assms(5) by (simp add: write_target_eq written_def plain_object_def)
  obtain c' where c': "set_prop c ?k nv = Inr c'" "get_prop (Some c') ?k = Inr (Some nv)"
    and o: "\<forall>kvs. c = JObj kvs \<longrightarrow>
              (\<exists>kvs'. c' = JObj kvs' \<and> map_of kvs' = (map_of kvs)(seg_name ?k \<mapsto> nv))"
    and a: "\<forall>xs i. c = JArr xs \<longrightarrow> seg_index ?k = Some i \<longrightarrow>
              c' = JArr (xs @ replicate (i - length xs) JNull @ [nv])"
  proof (cases c)
    case (JObj kvs)
    have g: "map_of (obj_set (seg_name ?k) nv kvs) = (map_of kvs)(seg_name ?k \<mapsto> nv)"
      by (rule map_of_obj_set)
    show ?thesis
      by (rule that [of "JObj (obj_set (seg_name ?k) nv kvs)"]) (use JObj g in auto)
  next
    case (JArr xs)
    with assms(7) obtain i where i: "seg_index ?k = Some i" by auto
    with JArr assms(5) have "\<not> i < length xs" by (auto split: if_splits)
    with JArr i show ?thesis using that by (simp add: extend_nth)
  qed (use assms(6) in auto)
  let ?v = "put_at root (butlast ?p) c'"
  have b: "walk (Some ?v) (butlast ?p) = Inr (Some c')"
    by (rule walk_put_at [OF assms(4) assms(6)])
  with c'(2) have "walk (Some ?v) (butlast ?p @ [?k]) = Inr (Some nv)"
    by (simp add: walk_snoc)
  with assms(3) have "walk (Some ?v) ?p = Inr (Some nv)" by simp
  moreover have "edited root ?p (rows_of nodeData) nv = Inr ?v"
    using assms(3,4) w c'(1) by (simp add: edited_def)
  ultimately have "onClick env currentJson nodeData editedText =
                     saved env (JSON_stringify env ?v) \<and>
                   walk (Some ?v) ?p = Inr (Some nv)"
    using assms(1,2) by (simp add: onClick_edited)
  with b o a show ?thesis by blast
qed

text \<open>
  The claim as it is written asks only that the segments before the last resolve to
  defined values. For \<^verbatim>\<open>{"a":true}\<close> and the path \<^verbatim>\<open>["a","c"]\<close> the parent is the
  defined value \<^verbatim>\<open>true\<close>, the key \<^verbatim>\<open>c\<close> is absent, and the save fails: a write on a
  primitive throws in a module.
\<close>

theorem defined_parent_counterexample:
  \<open>json_parse ''{"a":true}'' = Some (JObj [(''a'', JBool True)]) \<and>
   walk (Some (JObj [(''a'', JBool True)])) [Key ''a''] = Inr (Some (JBool True)) \<and>
   get_prop (Some (JBool True)) (Key ''c'') = Inr None \<and>
   onClick browser ''{"a":true}'' (Some \<lparr>nd_text = [], nd_path = [Key ''a'', Key ''c'']\<rparr>) ''2''
     = [SetError (Some TypeError)]\<close>
  by (simp add: host_defs handler_defs)

text \<open>An instance in the browser: \<^verbatim>\<open>{"a":{"x":1}}\<close> receives \<^verbatim>\<open>y\<close> under \<^verbatim>\<open>a\<close>.\<close>

theorem missing_final_key_inserts_witness:
  \<open>parse_document browser ''{"a":{"x":1}}'' = Inr (JObj [(''a'', JObj [(''x'', JNum 1)])]) \<and>
   new_value browser [] ''2'' = Inr (JNum 2) \<and>
   list_all ordinary [Key ''a'', Key ''y''] \<and>
   walk (Some (JObj [(''a'', JObj [(''x'', JNum 1)])])) [Key ''a''] = Inr (Some (JObj [(''x'', JNum 1)])) \<and>
   get_prop (Some (JObj [(''x'', JNum 1)])) (Key ''y'') = Inr None \<and>
   onClick browser ''{"a":{"x":1}}'' (Some \<lparr>nd_text = [], nd_path = [Key ''a'', Key ''y'']\<rparr>) ''2''
     = saved browser ''{\<newline>  "a": {\<newline>    "x": 1,\<newline>    "y": 2\<newline>  }\<newline>}''\<close>
proof -
  let ?nd = "Some \<lparr>nd_text = [], nd_path = [Key ''a'', Key ''y'']\<rparr>"
  let ?root = "JObj [(''a'', JObj [(''x'', JNum 1)])]"
  have p: \<open>parse_document browser ''{"a":{"x":1}}'' = Inr ?root\<close>
    by (simp add: parse_document_def host_defs handler_defs)
  have v: "new_value browser (rows_of ?nd) ''2'' = Inr (JNum 2)"
    by (simp add: rows_of_def host_defs handler_defs)
  have q: "path_of ?nd \<noteq> []" by (simp add: path_of_def)
  have w: "walk (Some ?root) (butlast (path_of ?nd)) = Inr (Some (JObj [(''x'', JNum 1)]))"
    by (simp add: path_of_def)
  have g: "get_prop (Some (JObj [(''x'', JNum 1)])) (last (path_of ?nd)) = Inr None"
    by (simp add: path_of_def)
  have s: \<open>onClick browser ''{"a":{"x":1}}'' ?nd ''2''
     = saved browser ''{\<newline>  "a": {\<newline>    "x": 1,\<newline>    "y": 2\<newline>  }\<newline>}''\<close>
    by (simp add: host_defs handler_defs)
  have o: "list_all ordinary (path_of ?nd)"
    by (simp add: path_of_def ordinary_def builtin_names_def)
  from missing_final_key_inserts [OF p v q w g _ _ o] p v w g s o show ?thesis
    by (simp add: rows_of_def path_of_def)
qed

end
